theory Spec2Isabelle
  imports Main "HOL-Library.Word" "HOL-Library.List_Lexorder" "HOL-Library.Char_ord"
begin

unbundle bit_operations_syntax

section \<open>Command-line options (main.go)\<close>

text \<open>
  \<^verbatim>\<open>setupParallelismOpt\<close> registers the flag \<^verbatim>\<open>--parallelism\<close> as a \<^verbatim>\<open>uint8\<close> with
  default value 0 and installs the accessor \<^verbatim>\<open>flags.getParallelism\<close>:
  \<^verbatim>\<open>
  if *p == defaultParallelismValue {
      n := runtime.NumCPU()
      return lo.Ternary(n > 1, n-1, 1)
  }
  return int(*p)
  \<close>
  The accessor is modelled as a function of the parsed flag value \<open>p\<close> and of the value
  \<open>numCPU\<close> that \<^verbatim>\<open>runtime.NumCPU()\<close> returns. Go's \<^verbatim>\<open>int\<close> is modelled by \<open>int\<close>: the only
  arithmetic is \<open>n - 1\<close> under the guard \<open>n > 1\<close>, which cannot wrap.
\<close>

definition defaultParallelismValue :: "8 word" where
  "defaultParallelismValue = 0"

definition getParallelism :: "8 word \<Rightarrow> int \<Rightarrow> int" where
  "getParallelism p numCPU =
     (if p = defaultParallelismValue
      then (let n = numCPU in if n > 1 then n - 1 else 1)
      else uint p)"

section \<open>Byte strings, hexadecimal encoding and the two digests\<close>

type_synonym byte = "8 word"
type_synonym uint32 = "32 word"
type_synonym path = string

text \<open>
  \<^verbatim>\<open>hex.EncodeToString\<close> writes, for every byte, the two characters
  \<^verbatim>\<open>hextable[v>>4]\<close> and \<^verbatim>\<open>hextable[v&0x0f]\<close> of the lowercase table.
\<close>

definition hextable :: string where
  "hextable = ''0123456789abcdef''"

definition hex_EncodeToString :: "byte list \<Rightarrow> string" where
  "hex_EncodeToString src =
     concat (map (\<lambda>v. [hextable ! unat (drop_bit 4 v), hextable ! unat (v AND 0x0f)]) src)"

text \<open>
  \<^verbatim>\<open>crc32.NewIEEE()\<close>, \<^verbatim>\<open>Write\<close> and \<^verbatim>\<open>Sum(nil)\<close> of the Go library: the table of the
  reflected polynomial \<^verbatim>\<open>0xedb88320\<close>, the byte-wise update between two complements, and
  the checksum appended in big-endian order.
\<close>

definition IEEE :: uint32 where
  "IEEE = 0xedb88320"

fun populate_bits :: "nat \<Rightarrow> uint32 \<Rightarrow> uint32 \<Rightarrow> uint32" where
  "populate_bits 0 poly crc = crc"
| "populate_bits (Suc j) poly crc =
     populate_bits j poly (if crc AND 1 = 1 then drop_bit 1 crc XOR poly else drop_bit 1 crc)"

definition crc32_table :: "uint32 \<Rightarrow> byte \<Rightarrow> uint32" where
  "crc32_table poly i = populate_bits 8 poly (ucast i)"

definition crc32_step :: "uint32 \<Rightarrow> byte \<Rightarrow> uint32" where
  "crc32_step crc v = crc32_table IEEE (ucast crc XOR v) XOR drop_bit 8 crc"

fun crc32_loop :: "uint32 \<Rightarrow> byte list \<Rightarrow> uint32" where
  "crc32_loop crc [] = crc"
| "crc32_loop crc (v # p) = crc32_loop (crc32_step crc v) p"

definition crc32_update :: "uint32 \<Rightarrow> byte list \<Rightarrow> uint32" where
  "crc32_update crc p = NOT (crc32_loop (NOT crc) p)"

definition be32 :: "uint32 \<Rightarrow> byte list" where
  "be32 s = [ucast (drop_bit 24 s), ucast (drop_bit 16 s), ucast (drop_bit 8 s), ucast s]"

definition crc32_Sum :: "byte list \<Rightarrow> byte list" where
  "crc32_Sum p = be32 (crc32_update 0 p)"

text \<open>
  \<^verbatim>\<open>sha256.New()\<close>, \<^verbatim>\<open>Write\<close> and \<^verbatim>\<open>Sum(nil)\<close> of the Go library (FIPS 180-4): the
  message is padded with \<^verbatim>\<open>0x80\<close>, zeros and its length in bits, and every block of 64
  bytes goes through the message schedule and the 64 rounds of the compression function.
\<close>

definition K256 :: "uint32 list" where
  "K256 = [
    0x428a2f98, 0x71374491, 0xb5c0fbcf, 0xe9b5dba5, 0x3956c25b, 0x59f111f1, 0x923f82a4, 0xab1c5ed5,
    0xd807aa98, 0x12835b01, 0x243185be, 0x550c7dc3, 0x72be5d74, 0x80deb1fe, 0x9bdc06a7, 0xc19bf174,
    0xe49b69c1, 0xefbe4786, 0x0fc19dc6, 0x240ca1cc, 0x2de92c6f, 0x4a7484aa, 0x5cb0a9dc, 0x76f988da,
    0x983e5152, 0xa831c66d, 0xb00327c8, 0xbf597fc7, 0xc6e00bf3, 0xd5a79147, 0x06ca6351, 0x14292967,
    0x27b70a85, 0x2e1b2138, 0x4d2c6dfc, 0x53380d13, 0x650a7354, 0x766a0abb, 0x81c2c92e, 0x92722c85,
    0xa2bfe8a1, 0xa81a664b, 0xc24b8b70, 0xc76c51a3, 0xd192e819, 0xd6990624, 0xf40e3585, 0x106aa070,
    0x19a4c116, 0x1e376c08, 0x2748774c, 0x34b0bcb5, 0x391c0cb3, 0x4ed8aa4a, 0x5b9cca4f, 0x682e6ff3,
    0x748f82ee, 0x78a5636f, 0x84c87814, 0x8cc70208, 0x90befffa, 0xa4506ceb, 0xbef9a3f7, 0xc67178f2]"

definition init256 :: "uint32 list" where
  "init256 = [0x6a09e667, 0xbb67ae85, 0x3c6ef372, 0xa54ff53a,
              0x510e527f, 0x9b05688c, 0x1f83d9ab, 0x5be0cd19]"

definition rotr32 :: "nat \<Rightarrow> uint32 \<Rightarrow> uint32" where
  "rotr32 n x = drop_bit n x OR push_bit (32 - n) x"

fun be_words :: "byte list \<Rightarrow> uint32 list" where
  "be_words (a # b # c # d # p) =
     (push_bit 24 (ucast a) OR push_bit 16 (ucast b) OR push_bit 8 (ucast c) OR ucast d)
       # be_words p"
| "be_words _ = []"

definition sigma0 :: "uint32 \<Rightarrow> uint32" where
  "sigma0 v = rotr32 7 v XOR rotr32 18 v XOR drop_bit 3 v"

definition sigma1 :: "uint32 \<Rightarrow> uint32" where
  "sigma1 v = rotr32 17 v XOR rotr32 19 v XOR drop_bit 10 v"

text \<open>The schedule is kept newest word first: \<open>rw ! 1\<close> is \<^verbatim>\<open>w[i-2]\<close>, \<open>rw ! 15\<close> is \<^verbatim>\<open>w[i-16]\<close>.\<close>

fun schedule :: "nat \<Rightarrow> uint32 list \<Rightarrow> uint32 list" where
  "schedule 0 rw = rw"
| "schedule (Suc n) rw =
     schedule n ((sigma1 (rw ! 1) + rw ! 6 + sigma0 (rw ! 14) + rw ! 15) # rw)"

definition Sigma0 :: "uint32 \<Rightarrow> uint32" where
  "Sigma0 a = rotr32 2 a XOR rotr32 13 a XOR rotr32 22 a"

definition Sigma1 :: "uint32 \<Rightarrow> uint32" where
  "Sigma1 e = rotr32 6 e XOR rotr32 11 e XOR rotr32 25 e"

definition Ch :: "uint32 \<Rightarrow> uint32 \<Rightarrow> uint32 \<Rightarrow> uint32" where
  "Ch e f g = (e AND f) XOR (NOT e AND g)"

definition Maj :: "uint32 \<Rightarrow> uint32 \<Rightarrow> uint32 \<Rightarrow> uint32" where
  "Maj a b c = (a AND b) XOR (a AND c) XOR (b AND c)"

fun shift256 :: "uint32 \<Rightarrow> uint32 \<Rightarrow> uint32 list \<Rightarrow> uint32 list" where
  "shift256 t1 t2 [a, b, c, d, e, f, g, h] = [t1 + t2, a, b, c, d + t1, e, f, g]"
| "shift256 t1 t2 s = s"

fun round256 :: "uint32 \<Rightarrow> uint32 \<Rightarrow> uint32 list \<Rightarrow> uint32 list" where
  "round256 k w [a, b, c, d, e, f, g, h] =
     shift256 (h + Sigma1 e + Ch e f g + k + w) (Sigma0 a + Maj a b c) [a, b, c, d, e, f, g, h]"
| "round256 k w s = s"

fun rounds256 :: "uint32 list \<Rightarrow> uint32 list \<Rightarrow> uint32 list \<Rightarrow> uint32 list" where
  "rounds256 (k # ks) (w # ws) s = rounds256 ks ws (round256 k w s)"
| "rounds256 _ _ s = s"

definition block256 :: "uint32 list \<Rightarrow> byte list \<Rightarrow> uint32 list" where
  "block256 hs p = map2 (+) hs (rounds256 K256 (rev (schedule 48 (rev (be_words p)))) hs)"

fun blocks256 :: "nat \<Rightarrow> uint32 list \<Rightarrow> byte list \<Rightarrow> uint32 list" where
  "blocks256 0 hs p = hs"
| "blocks256 (Suc n) hs p = blocks256 n (block256 hs (take 64 p)) (drop 64 p)"

definition be64 :: "64 word \<Rightarrow> byte list" where
  "be64 n = map (\<lambda>i. ucast (drop_bit (8 * (7 - i)) n)) [0..<8]"

definition pad256 :: "byte list \<Rightarrow> byte list" where
  "pad256 p =
     (let len = length p;
          t = (if len mod 64 < 56 then 56 - len mod 64 else 64 + 56 - len mod 64)
      in p @ 0x80 # replicate (t - 1) 0 @ be64 (push_bit 3 (of_nat len)))"

definition sha256_Sum :: "byte list \<Rightarrow> byte list" where
  "sha256_Sum p =
     (let m = pad256 p in concat (map be32 (blocks256 (length m div 64) init256 m)))"

section \<open>The file system seen by the hashing engine and by removal\<close>

text \<open>
  The type of a directory entry as \<^verbatim>\<open>FileInfo.Mode()\<close> reports it: a regular file has none
  of the type bits set, every other constructor stands for one bit of \<^verbatim>\<open>ModeType\<close>.
\<close>

datatype FileMode =
  ModeRegular | ModeDir | ModeSymlink | ModeNamedPipe | ModeSocket | ModeDevice
  | ModeCharDevice | ModeIrregular

definition IsRegular :: "FileMode \<Rightarrow> bool" where
  "IsRegular m = (m = ModeRegular)"

text \<open>
  An entry of the file system. \<open>st_size\<close> is the size that \<^verbatim>\<open>os.Lstat\<close> reports and
  \<open>content\<close> the bytes that a later read finds: the two are separate fields because the
  file can change between the two system calls. \<open>readable\<close> says whether the file can be
  opened for reading, \<open>removable\<close> whether \<^verbatim>\<open>os.Remove\<close> succeeds on it. Sizes are
  non-negative and below \<open>2 ^ 63\<close>, so none of the \<^verbatim>\<open>int64\<close> operations of the source
  (\<^verbatim>\<open>fileSize/2\<close>, \<^verbatim>\<open>fileSize-thresholdFileSize/4\<close>) wraps, and \<open>int\<close> models them.
\<close>

record inode =
  mode :: FileMode
  st_size :: int
  content :: "byte list"
  readable :: bool
  removable :: bool

type_synonym filesystem = "path \<Rightarrow> inode option"

datatype errno = ENOENT | EACCES | EISDIR | EOF | NegativeOffset

text \<open>
  Errors are values: a \<^verbatim>\<open>*PathError\<close> of the \<^verbatim>\<open>os\<close> package, a message of \<^verbatim>\<open>fmt.Errorf\<close>,
  or a message wrapping another error (\<^verbatim>\<open>%w\<close>).
\<close>

datatype error =
  PathError string path errno
  | Errorf string
  | ErrorfW string error

definition os_Lstat :: "filesystem \<Rightarrow> path \<Rightarrow> error + inode" where
  "os_Lstat fs name =
     (case fs name of
        None \<Rightarrow> Inl (PathError ''lstat'' name ENOENT)
      | Some fileInfo \<Rightarrow> Inr fileInfo)"

definition os_ReadFile :: "filesystem \<Rightarrow> path \<Rightarrow> error + byte list" where
  "os_ReadFile fs name =
     (case fs name of
        None \<Rightarrow> Inl (PathError ''open'' name ENOENT)
      | Some f \<Rightarrow>
          if \<not> readable f then Inl (PathError ''open'' name EACCES)
          else if mode f = ModeDir then Inl (PathError ''read'' name EISDIR)
          else Inr (content f))"

text \<open>An open file is the path together with the entry found when opening it.\<close>

definition os_Open :: "filesystem \<Rightarrow> path \<Rightarrow> error + (path \<times> inode)" where
  "os_Open fs name =
     (case fs name of
        None \<Rightarrow> Inl (PathError ''open'' name ENOENT)
      | Some f \<Rightarrow>
          if \<not> readable f then Inl (PathError ''open'' name EACCES)
          else Inr (name, f))"

text \<open>
  \<^verbatim>\<open>file.ReadAt(b, off)\<close> with \<open>n = len(b)\<close>: it fills the whole buffer or returns an
  error (\<^verbatim>\<open>io.EOF\<close> when the file ends before \<open>off + n\<close>).
\<close>

definition File_ReadAt :: "path \<times> inode \<Rightarrow> nat \<Rightarrow> int \<Rightarrow> error + byte list" where
  "File_ReadAt file n off =
     (case file of (name, f) \<Rightarrow>
        if off < 0 then Inl (PathError ''readat'' name NegativeOffset)
        else if mode f = ModeDir then Inl (PathError ''read'' name EISDIR)
        else if nat off + n \<le> length (content f)
        then Inr (take n (drop (nat off) (content f)))
        else Inl (PathError ''read'' name EOF))"

definition os_Remove :: "filesystem \<Rightarrow> path \<Rightarrow> error option \<times> filesystem" where
  "os_Remove fs name =
     (case fs name of
        None \<Rightarrow> (Some (PathError ''remove'' name ENOENT), fs)
      | Some f \<Rightarrow>
          if removable f then (None, fs(name := None))
          else (Some (PathError ''remove'' name EACCES), fs))"

section \<open>The hashing engine (service/file\_hash.go)\<close>

text \<open>Modelled from the spec: the constant \<^verbatim>\<open>bytesutil.KIBI\<close>, whose package is not among
  the verified source files; the spec fixes the threshold \<^verbatim>\<open>16 * KIBI\<close> at 16 KiB.\<close>

definition KIBI :: int where
  "KIBI = 1024"

definition thresholdFileSize :: int where
  "thresholdFileSize = 16 * KIBI"

text \<open>Go's integer division truncates towards zero.\<close>

definition go_div :: "int \<Rightarrow> int \<Rightarrow> int" where
  "go_div a b = (if (a < 0) = (b < 0) then \<bar>a\<bar> div \<bar>b\<bar> else - (\<bar>a\<bar> div \<bar>b\<bar>))"

definition readCrucialBytes :: "filesystem \<Rightarrow> path \<Rightarrow> int \<Rightarrow> error + byte list" where
  "readCrucialBytes fs filePath fileSize =
     (case os_Open fs filePath of
        Inl err \<Rightarrow> Inl err
      | Inr file \<Rightarrow>
         (case File_ReadAt file (nat (go_div thresholdFileSize 2)) 0 of
            Inl err \<Rightarrow>
              Inl (ErrorfW ''couldn't read first few bytes (maybe file is corrupted?)'' err)
          | Inr firstBytes \<Rightarrow>
             (case File_ReadAt file (nat (go_div thresholdFileSize 4)) (go_div fileSize 2) of
                Inl err \<Rightarrow>
                  Inl (ErrorfW ''couldn't read middle bytes (maybe file is corrupted?)'' err)
              | Inr middleBytes \<Rightarrow>
                 (case File_ReadAt file (nat (go_div thresholdFileSize 4))
                         (fileSize - go_div thresholdFileSize 4) of
                    Inl err \<Rightarrow>
                      Inl (ErrorfW ''couldn't read end bytes (maybe file is corrupted?)'' err)
                  | Inr lastBytes \<Rightarrow> Inr (firstBytes @ middleBytes @ lastBytes)))))"

text \<open>
  \<^verbatim>\<open>fileHash\<close>: the \<^verbatim>\<open>switch\<close> chooses the prefix and the bytes, then the digest is
  SHA-256 when \<open>isThorough\<close> and CRC32 otherwise. \<^verbatim>\<open>h.Write\<close> of a \<^verbatim>\<open>hash.Hash\<close> never
  returns an error, so that branch of the source has no counterpart.
\<close>

definition fileHash :: "filesystem \<Rightarrow> path \<Rightarrow> bool \<Rightarrow> error + string" where
  "fileHash fs name isThorough =
     (case os_Lstat fs name of
        Inl statErr \<Rightarrow> Inl (ErrorfW ''couldn't stat'' statErr)
      | Inr fileInfo \<Rightarrow>
          if \<not> IsRegular (mode fileInfo)
          then Inl (Errorf ''can't compute hash of non-regular file'')
          else
            (case (if isThorough then ([], os_ReadFile fs name)
                   else if st_size fileInfo \<le> thresholdFileSize
                   then (''f'', os_ReadFile fs name)
                   else (''s'', readCrucialBytes fs name (st_size fileInfo))) of
               (prefix, Inl fileReadErr) \<Rightarrow>
                 Inl (ErrorfW ''couldn't calculate hash'' fileReadErr)
             | (prefix, Inr bytes) \<Rightarrow>
                 Inr (prefix @
                      hex_EncodeToString
                        ((if isThorough then sha256_Sum else crc32_Sum) bytes))))"

text \<open>
  \<^verbatim>\<open>entity.FileDigest\<close>, with the field names that \<^verbatim>\<open>GetDigest\<close> and the report use.
\<close>

record FileDigest =
  FileExtension :: string
  FileSize :: int
  FileHash :: string

text \<open>
  \<^verbatim>\<open>GetDigest\<close>. The helper \<^verbatim>\<open>utils.GetFileExt\<close> is not among the verified source files
  and is a parameter of the model.
\<close>

definition GetDigest ::
  "(path \<Rightarrow> string) \<Rightarrow> filesystem \<Rightarrow> path \<Rightarrow> bool \<Rightarrow> error + FileDigest" where
  "GetDigest GetFileExt fs name isThorough =
     (case os_Lstat fs name of
        Inl err \<Rightarrow> Inl err
      | Inr info \<Rightarrow>
         (case fileHash fs name isThorough of
            Inl err \<Rightarrow> Inl err
          | Inr h \<Rightarrow>
              Inr \<lparr>FileExtension = GetFileExt name, FileSize = st_size info, FileHash = h\<rparr>))"

section \<open>The grouping store\<close>

text \<open>Modelled from the spec: the type \<^verbatim>\<open>entity.DigestToFiles\<close>, whose package is not among
  the verified source files. The spec describes an order-preserving mapping from digest to
  the list of paths sharing it, read through an iterator that yields the digests in
  first-seen order. The model is the sequence of entries that the iterator yields.\<close>

type_synonym DigestToFiles = "(FileDigest \<times> path list) list"

text \<open>Modelled from the spec: the operation \<^verbatim>\<open>add(digest, path)\<close> of the grouping store,
  absent from the verified source files: the first time a digest is seen it is appended to
  the iteration order; a later file with the same digest is appended to that digest's path
  list.\<close>

fun add :: "FileDigest \<Rightarrow> path \<Rightarrow> DigestToFiles \<Rightarrow> DigestToFiles" where
  "add digest p [] = [(digest, [p])]"
| "add digest p ((k, paths) # m) =
     (if k = digest then (k, paths @ [p]) # m else (k, paths) # add digest p m)"

text \<open>Modelled from the spec: the pipeline calls \<^verbatim>\<open>add\<close> once per successfully hashed
  file, starting from the empty store.\<close>

fun addAll :: "(FileDigest \<times> path) list \<Rightarrow> DigestToFiles \<Rightarrow> DigestToFiles" where
  "addAll [] m = m"
| "addAll ((digest, p) # hashed) m = addAll hashed (add digest p m)"

text \<open>Modelled from the spec: \<^verbatim>\<open>groups()\<close>, the externally visible \<^verbatim>\<open>duplicateGroups\<close>:
  the entries of the store whose digest is shared by two paths or more, in the order of
  the store.\<close>

fun groups :: "DigestToFiles \<Rightarrow> DigestToFiles" where
  "groups [] = []"
| "groups ((digest, paths) # m) =
     (if 2 \<le> length paths then (digest, paths) # groups m else groups m)"

text \<open>Modelled from the spec: the aggregator, absent from the verified source files. It
  folds the reported groups into the two statistics, one group at a time:
  \<^verbatim>\<open>numDuplicates = len(paths) - 1\<close> is added to the count and
  \<^verbatim>\<open>numDuplicates * digest.size\<close> to the savings.\<close>

fun aggregate :: "DigestToFiles \<Rightarrow> int \<times> int \<Rightarrow> int \<times> int" where
  "aggregate [] (duplicateTotalCount, savingsSize) = (duplicateTotalCount, savingsSize)"
| "aggregate ((digest, paths) # m) (duplicateTotalCount, savingsSize) =
     (let numDuplicates = int (length paths) - 1
      in aggregate m
           (duplicateTotalCount + numDuplicates, savingsSize + numDuplicates * FileSize digest))"

definition totalDuplicateCount :: "DigestToFiles \<Rightarrow> int" where
  "totalDuplicateCount m = fst (aggregate (groups m) (0, 0))"

definition savingsBytes :: "DigestToFiles \<Rightarrow> int" where
  "savingsBytes m = snd (aggregate (groups m) (0, 0))"

section \<open>Removal of duplicates (report.go)\<close>

text \<open>
  \<^verbatim>\<open>multierr.Append(err, e)\<close>: the combined error is modelled by the list of the errors
  it holds; \<^verbatim>\<open>nil\<close> is the empty list, and appending \<^verbatim>\<open>nil\<close> changes nothing.
\<close>

definition multierr_Append :: "error list \<Rightarrow> error option \<Rightarrow> error list" where
  "multierr_Append left right = (case right of None \<Rightarrow> left | Some e \<Rightarrow> left @ [e])"

text \<open>
  The inner loop \<^verbatim>\<open>for i, path := range paths\<close> of \<^verbatim>\<open>RemoveDuplicates\<close>, from index \<open>i\<close>
  on; the state is the error accumulated so far and the file system.
\<close>

fun range_paths ::
  "nat \<Rightarrow> path list \<Rightarrow> error list \<times> filesystem \<Rightarrow> error list \<times> filesystem" where
  "range_paths i [] (err, fs) = (err, fs)"
| "range_paths i (p # paths) (err, fs) =
     (if i > 0
      then (case os_Remove fs p of
              (e, fs') \<Rightarrow> range_paths (Suc i) paths (multierr_Append err e, fs'))
      else range_paths (Suc i) paths (err, fs))"

text \<open>The outer loop over \<^verbatim>\<open>duplicates.Iterator()\<close>.\<close>

fun iterate ::
  "DigestToFiles \<Rightarrow> error list \<times> filesystem \<Rightarrow> error list \<times> filesystem" where
  "iterate [] s = s"
| "iterate ((digest, paths) # rest) s = iterate rest (range_paths 0 paths s)"

definition RemoveDuplicates ::
  "DigestToFiles \<Rightarrow> filesystem \<Rightarrow> error list \<times> filesystem" where
  "RemoveDuplicates duplicates fs = iterate duplicates ([], fs)"

section \<open>Notions used to state the properties\<close>

text \<open>The paths that \<^verbatim>\<open>RemoveDuplicates\<close> hands to \<^verbatim>\<open>os.Remove\<close>, in the order of the calls:
  of every group, all paths but the one at index 0.\<close>

definition removal_targets :: "DigestToFiles \<Rightarrow> path list" where
  "removal_targets duplicates = concat (map (\<lambda>(digest, paths). tl paths) duplicates)"

text \<open>Whether \<^verbatim>\<open>os.Remove\<close> succeeds on a path, and the error it returns when it fails.\<close>

definition can_remove :: "filesystem \<Rightarrow> path \<Rightarrow> bool" where
  "can_remove fs p = (case fs p of None \<Rightarrow> False | Some f \<Rightarrow> removable f)"

definition remove_error :: "filesystem \<Rightarrow> path \<Rightarrow> error" where
  "remove_error fs p =
     PathError ''remove'' p (case fs p of None \<Rightarrow> ENOENT | Some f \<Rightarrow> EACCES)"

text \<open>A sequence of \<^verbatim>\<open>os.Remove\<close> calls with the errors appended, as both loops perform it.\<close>

fun remove_each ::
  "path list \<Rightarrow> error list \<times> filesystem \<Rightarrow> error list \<times> filesystem" where
  "remove_each [] s = s"
| "remove_each (p # paths) (err, fs) =
     (case os_Remove fs p of (e, fs') \<Rightarrow> remove_each paths (multierr_Append err e, fs'))"

text \<open>The regions \<open>(offset, length)\<close> of the three \<^verbatim>\<open>ReadAt\<close> calls of \<^verbatim>\<open>readCrucialBytes\<close>,
  and the set of byte positions of a region.\<close>

definition crucial_regions :: "int \<Rightarrow> (int \<times> nat) list" where
  "crucial_regions fileSize =
     [(0, nat (go_div thresholdFileSize 2)),
      (go_div fileSize 2, nat (go_div thresholdFileSize 4)),
      (fileSize - go_div thresholdFileSize 4, nat (go_div thresholdFileSize 4))]"

definition region :: "int \<times> nat \<Rightarrow> int set" where
  "region r = {fst r ..< fst r + int (snd r)}"

text \<open>Reading a sequence of regions from an open file, stopping at the first error.\<close>

fun read_regions :: "path \<times> inode \<Rightarrow> (int \<times> nat) list \<Rightarrow> error + byte list" where
  "read_regions file [] = Inr []"
| "read_regions file ((off, n) # rs) =
     (case File_ReadAt file n off of
        Inl err \<Rightarrow> Inl err
      | Inr bs \<Rightarrow>
         (case read_regions file rs of Inl err \<Rightarrow> Inl err | Inr cs \<Rightarrow> Inr (bs @ cs)))"

text \<open>A regular file of the given content whose size has not changed since \<^verbatim>\<open>Lstat\<close>.\<close>

definition regular_file :: "byte list \<Rightarrow> bool \<Rightarrow> inode" where
  "regular_file bs r =
     \<lparr>mode = ModeRegular, st_size = int (length bs), content = bs,
      readable = r, removable = True\<rparr>"

text \<open>The crucial bytes of a file content in the words of the spec: the first
  \<open>threshold/2\<close> bytes, the \<open>threshold/4\<close> bytes starting at the midpoint offset, and the
  last \<open>threshold/4\<close> bytes, concatenated in that order.\<close>

definition crucial_bytes :: "byte list \<Rightarrow> byte list" where
  "crucial_bytes c =
     take 8192 c @ take 4096 (drop (length c div 2) c) @ drop (length c - 4096) c"

text \<open>The lexicographically first path of a list, in the byte-wise order of Go strings.\<close>

definition lexicographically_first :: "path list \<Rightarrow> path \<Rightarrow> bool" where
  "lexicographically_first paths p = (p \<in> set paths \<and> (\<forall>q \<in> set paths. p \<le> q))"

text \<open>The paths of the hashed files that have a given digest, in the order of their arrival.\<close>

definition paths_of :: "FileDigest \<Rightarrow> (FileDigest \<times> path) list \<Rightarrow> path list" where
  "paths_of digest hashed = map snd (filter (\<lambda>e. fst e = digest) hashed)"

section \<open>Concrete file systems and stores\<close>

text \<open>A content of 20000 bytes whose three sampled regions hold ones, twos and threes, and
  nines elsewhere; and a file system with a small file, a large file, a large file that
  cannot be opened, a symbolic link and a directory.\<close>

definition sample_content :: "byte list" where
  "sample_content =
     replicate 8192 1 @ replicate 1808 9 @ replicate 4096 2 @ replicate 1808 9 @ replicate 4096 3"

definition sample_fs :: filesystem where
  "sample_fs =
     Map.empty(''/a/x.txt'' \<mapsto> regular_file [0x61] True,
               ''/a/big.bin'' \<mapsto> regular_file sample_content True,
               ''/a/locked.bin'' \<mapsto> regular_file sample_content False,
               ''/a/link'' \<mapsto>
                  \<lparr>mode = ModeSymlink, st_size = 9, content = [0x61], readable = True,
                   removable = True\<rparr>,
               ''/a/dir'' \<mapsto>
                  \<lparr>mode = ModeDir, st_size = 4096, content = [], readable = True,
                   removable = False\<rparr>)"

text \<open>Two digests, the results of hashing four files, duplicate groups listed in several
  orders, and file systems in which some deletions fail.\<close>

definition txt_digest :: FileDigest where
  "txt_digest = \<lparr>FileExtension = ''.txt'', FileSize = 10, FileHash = ''f3981703a''\<rparr>"

definition jpg_digest :: FileDigest where
  "jpg_digest = \<lparr>FileExtension = ''.jpg'', FileSize = 7, FileHash = ''f0c1d2e3f''\<rparr>"

definition hashed_files :: "(FileDigest \<times> path) list" where
  "hashed_files =
     [(txt_digest, ''/a/1.txt''), (jpg_digest, ''/a/x.jpg''), (txt_digest, ''/b/1.txt''),
      (txt_digest, ''/c/1.txt'')]"

definition two_copies :: DigestToFiles where
  "two_copies = [(txt_digest, [''/a/2.txt'', ''/a/1.txt''])]"

definition two_copies_fs :: filesystem where
  "two_copies_fs =
     Map.empty(''/a/1.txt'' \<mapsto> regular_file (replicate 10 0x61) True,
               ''/a/2.txt'' \<mapsto> regular_file (replicate 10 0x61) True)"

definition three_copies :: DigestToFiles where
  "three_copies = [(txt_digest, [''/b/3.txt'', ''/b/1.txt'', ''/b/2.txt''])]"

definition sorted_copies :: DigestToFiles where
  "sorted_copies = [(txt_digest, [''/b/1.txt'', ''/b/2.txt'', ''/b/3.txt'', ''/b/4.txt''])]"

definition locked_fs :: filesystem where
  "locked_fs =
     Map.empty(''/b/1.txt'' \<mapsto> regular_file (replicate 10 0x61) True\<lparr>removable := False\<rparr>,
               ''/b/2.txt'' \<mapsto> regular_file (replicate 10 0x61) True,
               ''/b/3.txt'' \<mapsto> regular_file (replicate 10 0x61) True\<lparr>removable := False\<rparr>)"

section \<open>Worker count\<close>

lemma uint8_nonzero_pos: "p \<noteq> 0 \<Longrightarrow> 1 \<le> uint (p :: 8 word)"
proof -
  assume "p \<noteq> 0"
  then have "uint p \<noteq> 0" by (simp add: uint_0_iff)
  moreover have "0 \<le> uint p" by simp
  ultimately show ?thesis by linarith
qed

text \<open>
  Claim C8. With the parallelism flag left at its default 0, the worker count is
  \<open>max (NumCPU - 1) 1\<close>: one less than the number of processors when that number exceeds
  one, and one otherwise. Whatever the flag value, the worker count is at least one.
\<close>

theorem getParallelism_default:
  "getParallelism 0 numCPU = max (numCPU - 1) 1 \<and>
   getParallelism 0 numCPU = (if numCPU > 1 then numCPU - 1 else 1) \<and>
   1 \<le> getParallelism p numCPU"
proof -
  have a: "getParallelism 0 numCPU = (if numCPU > 1 then numCPU - 1 else 1)"
    by (simp add: getParallelism_def defaultParallelismValue_def)
  have b: "1 \<le> getParallelism p numCPU"
    using uint8_nonzero_pos [of p]
    by (simp add: getParallelism_def defaultParallelismValue_def Let_def)
  from a b show ?thesis by (simp add: max_def)
qed

theorem getParallelism_default_witness:
  "getParallelism 0 8 = 7 \<and> getParallelism 0 1 = 1 \<and> getParallelism 0 0 = 1 \<and>
   1 \<le> getParallelism 255 8"
  using getParallelism_default [of 8 255] getParallelism_default [of 1 0]
    getParallelism_default [of 0 0]
  by simp

section \<open>The hashing engine: properties\<close>

lemma thresholdFileSize_eq: "thresholdFileSize = 16384"
  by (simp add: thresholdFileSize_def KIBI_def)

lemma go_div_nonneg: "0 \<le> a \<Longrightarrow> 0 < b \<Longrightarrow> go_div a b = a div b"
  by (auto simp add: go_div_def)

lemma threshold_half: "go_div thresholdFileSize 2 = 8192"
  by (simp add: thresholdFileSize_eq go_div_def)

lemma threshold_quarter: "go_div thresholdFileSize 4 = 4096"
  by (simp add: thresholdFileSize_eq go_div_def)

lemma crucial_regions_eq:
  "0 \<le> fileSize \<Longrightarrow>
   crucial_regions fileSize = [(0, 8192), (fileSize div 2, 4096), (fileSize - 4096, 4096)]"
  by (simp add: crucial_regions_def threshold_half threshold_quarter go_div_nonneg)

lemma readCrucialBytes_Inr_iff:
  "readCrucialBytes fs p fileSize = Inr bs \<longleftrightarrow>
   (\<exists>file. os_Open fs p = Inr file \<and> read_regions file (crucial_regions fileSize) = Inr bs)"
  by (auto simp add: readCrucialBytes_def crucial_regions_def split: sum.splits)

lemma readCrucialBytes_Inl_cases:
  assumes "readCrucialBytes fs p fileSize = Inl e"
  shows "os_Open fs p = Inl e \<or>
   (\<exists>file e'. os_Open fs p = Inr file \<and> read_regions file (crucial_regions fileSize) = Inl e')"
proof (cases "os_Open fs p")
  case (Inl a)
  with assms show ?thesis by (simp add: readCrucialBytes_def)
next
  case (Inr opened)
  with assms have "\<exists>e'. read_regions opened (crucial_regions fileSize) = Inl e'"
    by (cases opened) (simp add: readCrucialBytes_def crucial_regions_def split: sum.splits)
  with Inr show ?thesis by simp
qed

lemma File_ReadAt_inside:
  "mode f \<noteq> ModeDir \<Longrightarrow> 0 \<le> off \<Longrightarrow> off + int n \<le> int (length (content f)) \<Longrightarrow>
   File_ReadAt (name, f) n off = Inr (take n (drop (nat off) (content f)))"
  by (auto simp add: File_ReadAt_def)

lemma File_ReadAt_length:
  "File_ReadAt file n off = Inr bs \<Longrightarrow> length bs = n"
  by (auto simp add: File_ReadAt_def split: prod.splits if_splits)

lemma regions_inside:
  assumes "thresholdFileSize < fileSize" and "(off, n) \<in> set (crucial_regions fileSize)"
  shows "0 \<le> off \<and> off + int n \<le> fileSize"
  using assms by (auto simp add: crucial_regions_eq thresholdFileSize_eq)

lemma read_regions_crucial:
  assumes "thresholdFileSize < fileSize" and "mode f = ModeRegular"
    and "int (length (content f)) = fileSize"
  shows "read_regions (name, f) (crucial_regions fileSize) =
         Inr (take 8192 (content f) @ take 4096 (drop (nat (fileSize div 2)) (content f)) @
              drop (length (content f) - 4096) (content f))"
proof -
  from assms have sz: "16384 < fileSize" by (simp add: thresholdFileSize_eq)
  have m: "mode f \<noteq> ModeDir" using assms(2) by simp
  have r1: "File_ReadAt (name, f) 8192 0 = Inr (take 8192 (content f))"
    using File_ReadAt_inside [OF m, of 0 8192 name] sz assms(3) by simp
  have r2: "File_ReadAt (name, f) 4096 (fileSize div 2) =
            Inr (take 4096 (drop (nat (fileSize div 2)) (content f)))"
    using File_ReadAt_inside [OF m, of "fileSize div 2" 4096 name] sz assms(3) by simp
  have "nat (fileSize - 4096) = length (content f) - 4096" using assms(3) sz by linarith
  moreover have "take 4096 (drop (length (content f) - 4096) (content f)) =
      drop (length (content f) - 4096) (content f)" by simp
  ultimately have r3: "File_ReadAt (name, f) 4096 (fileSize - 4096) =
            Inr (drop (length (content f) - 4096) (content f))"
    using File_ReadAt_inside [OF m, of "fileSize - 4096" 4096 name] sz assms(3) by simp
  from sz have "0 \<le> fileSize" by simp
  then show ?thesis by (simp add: crucial_regions_eq r1 r2 r3)
qed


lemma hex_EncodeToString_length: "length (hex_EncodeToString bs) = 2 * length bs"
  by (induction bs) (simp_all add: hex_EncodeToString_def)

lemma nibble_low: "unat (v AND (0x0f :: byte)) < 16"
proof -
  have "v AND 0x0f \<le> 0x0f" by (rule word_and_le1)
  then have "unat (v AND 0x0f) \<le> unat (0x0f :: byte)" by (simp only: word_le_nat_alt)
  then show ?thesis by simp
qed

lemma nibble_high: "unat (drop_bit 4 (v :: byte)) < 16"
proof -
  have "unat v < 2 ^ 8" using unsigned_less [of v, where ?'a = nat] by simp
  then have "unat v div 2 ^ 4 < 16" by simp
  then show ?thesis by (simp add: drop_bit_eq_div unat_div)
qed

lemma hextable_nth: "i < 16 \<Longrightarrow> hextable ! i \<in> set hextable"
proof -
  assume "i < 16"
  moreover have "length hextable = 16" by (simp add: hextable_def)
  ultimately show ?thesis by (simp only: nth_mem)
qed

lemma hex_EncodeToString_lowercase:
  "set (hex_EncodeToString bs) \<subseteq> set ''0123456789abcdef''"
proof -
  have "set (hex_EncodeToString bs) \<subseteq> set hextable"
    using hextable_nth [OF nibble_low] hextable_nth [OF nibble_high]
    by (auto simp add: hex_EncodeToString_def)
  then show ?thesis by (simp add: hextable_def)
qed

text \<open>
  Claim C7. For a file larger than the threshold of 16 KiB, the three regions read by
  \<^verbatim>\<open>readCrucialBytes\<close> are the byte positions \<open>[0, 8192)\<close>, \<open>[size/2, size/2 + 4096)\<close> and
  \<open>[size - 4096, size)\<close>, and they are pairwise disjoint.
\<close>

theorem crucial_regions_pairwise_disjoint:
  assumes "thresholdFileSize < fileSize"
  shows "map region (crucial_regions fileSize) =
           [{0..<8192}, {fileSize div 2..<fileSize div 2 + 4096}, {fileSize - 4096..<fileSize}] \<and>
         (\<forall>i<3. \<forall>j<3. i \<noteq> j \<longrightarrow>
            region (crucial_regions fileSize ! i) \<inter> region (crucial_regions fileSize ! j) = {})"
proof -
  from assms have sz: "16384 < fileSize" by (simp add: thresholdFileSize_eq)
  then have eq: "crucial_regions fileSize =
      [(0, 8192), (fileSize div 2, 4096), (fileSize - 4096, 4096)]"
    by (simp add: crucial_regions_eq)
  have d12: "{0..<8192} \<inter> {fileSize div 2..<fileSize div 2 + 4096} = {}"
    using sz by auto
  have d13: "{0..<8192} \<inter> {fileSize - 4096..<fileSize} = {}"
    using sz by auto
  have d23: "{fileSize div 2..<fileSize div 2 + 4096} \<inter> {fileSize - 4096..<fileSize} = {}"
    using sz by auto
  have "\<And>i j. i < 3 \<Longrightarrow> j < 3 \<Longrightarrow> i \<noteq> j \<Longrightarrow>
      region (crucial_regions fileSize ! i) \<inter> region (crucial_regions fileSize ! j) = {}"
  proof -
    fix i j :: nat
    assume "i < 3" "j < 3" "i \<noteq> j"
    then consider "i = 0 \<and> j = 1" | "i = 0 \<and> j = 2" | "i = 1 \<and> j = 2"
      | "i = 1 \<and> j = 0" | "i = 2 \<and> j = 0" | "i = 2 \<and> j = 1" by linarith
    then show "region (crucial_regions fileSize ! i) \<inter> region (crucial_regions fileSize ! j) = {}"
      using d12 d13 d23 by cases (auto simp add: eq region_def Int_commute)
  qed
  then show ?thesis by (simp add: eq region_def)
qed

text \<open>The smallest file above the threshold: 16385 bytes.\<close>

theorem crucial_regions_pairwise_disjoint_witness:
  "thresholdFileSize < 16385 \<and>
   map region (crucial_regions 16385) = [{0..<8192}, {8192..<12288}, {12289..<16385}] \<and>
   region (crucial_regions 16385 ! 0) \<inter> region (crucial_regions 16385 ! 1) = {} \<and>
   region (crucial_regions 16385 ! 0) \<inter> region (crucial_regions 16385 ! 2) = {} \<and>
   region (crucial_regions 16385 ! 1) \<inter> region (crucial_regions 16385 ! 2) = {}"
proof -
  have h: "thresholdFileSize < 16385" by (simp add: thresholdFileSize_eq)
  from crucial_regions_pairwise_disjoint [OF h] h show ?thesis by simp
qed


lemma os_Open_Some: "fs p = Some f \<Longrightarrow> os_Open fs p = (if readable f then Inr (p, f) else Inl (PathError ''open'' p EACCES))"
  by (simp add: os_Open_def)

lemma crucial_bytes_length: "16384 < length c \<Longrightarrow> length (crucial_bytes c) = 16384"
  by (simp add: crucial_bytes_def)

lemma readCrucialBytes_regular:
  assumes "thresholdFileSize < fileSize" and "fs p = Some f" and "mode f = ModeRegular"
    and "int (length (content f)) = fileSize"
  shows "readCrucialBytes fs p fileSize =
         (if readable f then Inr (crucial_bytes (content f))
          else Inl (PathError ''open'' p EACCES))"
proof (cases "readable f")
  case True
  from assms(4) have "nat (fileSize div 2) = length (content f) div 2" by linarith
  with read_regions_crucial [OF assms(1,3,4), of p]
  have "read_regions (p, f) (crucial_regions fileSize) = Inr (crucial_bytes (content f))"
    by (simp add: crucial_bytes_def)
  with True assms(2) show ?thesis
    by (simp add: readCrucialBytes_Inr_iff os_Open_Some)
next
  case False
  with assms(2) show ?thesis by (simp add: readCrucialBytes_def os_Open_Some)
qed

text \<open>
  Claim C9, as amended. For a regular file larger than 16384 bytes whose content length
  equals the size passed to \<^verbatim>\<open>readCrucialBytes\<close>, every one of the three reads lies inside
  the file (\<open>0 \<le> offset\<close> and \<open>offset + length \<le> size\<close>) and succeeds; so, once
  \<^verbatim>\<open>os.Open\<close> has succeeded, none of the three short-read branches is taken and
  \<^verbatim>\<open>readCrucialBytes\<close> returns 16384 bytes. When the file cannot be opened, the error of
  \<^verbatim>\<open>os.Open\<close> is returned instead.
\<close>

theorem readCrucialBytes_reads_inside:
  assumes "thresholdFileSize < fileSize" and "fs p = Some f" and "mode f = ModeRegular"
    and "int (length (content f)) = fileSize"
  shows "(\<forall>r \<in> set (crucial_regions fileSize). 0 \<le> fst r \<and> fst r + int (snd r) \<le> fileSize) \<and>
         (\<forall>r \<in> set (crucial_regions fileSize). \<exists>bs. File_ReadAt (p, f) (snd r) (fst r) = Inr bs) \<and>
         (readable f \<longrightarrow>
            (\<exists>bs. readCrucialBytes fs p fileSize = Inr bs \<and> length bs = 16384)) \<and>
         (\<not> readable f \<longrightarrow>
            readCrucialBytes fs p fileSize = Inl (PathError ''open'' p EACCES))"
proof -
  have inside: "\<forall>r \<in> set (crucial_regions fileSize). 0 \<le> fst r \<and> fst r + int (snd r) \<le> fileSize"
    using regions_inside [OF assms(1)] by auto
  have m: "mode f \<noteq> ModeDir" using assms(3) by simp
  have reads: "\<forall>r \<in> set (crucial_regions fileSize). \<exists>bs. File_ReadAt (p, f) (snd r) (fst r) = Inr bs"
    using inside File_ReadAt_inside [OF m] assms(4) by blast
  from assms(1,4) have "16384 < length (content f)" by (simp add: thresholdFileSize_eq)
  then have "length (crucial_bytes (content f)) = 16384" by (rule crucial_bytes_length)
  with inside reads readCrucialBytes_regular [of fileSize fs p f, OF assms] show ?thesis by simp
qed

text \<open>A readable file of 20000 bytes.\<close>

theorem readCrucialBytes_reads_inside_witness:
  "thresholdFileSize < 20000 \<and>
   sample_fs ''/a/big.bin'' = Some (regular_file sample_content True) \<and>
   int (length sample_content) = 20000 \<and>
   crucial_regions 20000 = [(0, 8192), (10000, 4096), (15904, 4096)] \<and>
   (\<exists>bs. readCrucialBytes sample_fs ''/a/big.bin'' 20000 = Inr bs \<and> length bs = 16384)"
proof -
  have h1: "thresholdFileSize < 20000" by (simp add: thresholdFileSize_eq)
  have h2: "sample_fs ''/a/big.bin'' = Some (regular_file sample_content True)"
    by (simp add: sample_fs_def)
  have h3: "mode (regular_file sample_content True) = ModeRegular"
    by (simp add: regular_file_def)
  have h4: "int (length (content (regular_file sample_content True))) = 20000"
    by (simp add: regular_file_def sample_content_def)
  have h5: "crucial_regions 20000 = [(0, 8192), (10000, 4096), (15904, 4096)]"
    by (simp add: crucial_regions_eq)
  from readCrucialBytes_reads_inside [of 20000 sample_fs "''/a/big.bin''" "regular_file sample_content True", OF h1 h2 h3 h4] h1 h2 h4 h5 show ?thesis
    by (simp add: regular_file_def)
qed

text \<open>
  Claim C9 as stated fails: a regular file of 20000 bytes whose content length equals its
  size, but which cannot be opened for reading, makes \<^verbatim>\<open>readCrucialBytes\<close> return the error
  of \<^verbatim>\<open>os.Open\<close> and no bytes.
\<close>

theorem readCrucialBytes_open_error:
  "thresholdFileSize < 20000 \<and>
   sample_fs ''/a/locked.bin'' = Some (regular_file sample_content False) \<and>
   mode (regular_file sample_content False) = ModeRegular \<and>
   st_size (regular_file sample_content False) = 20000 \<and>
   int (length (content (regular_file sample_content False))) = 20000 \<and>
   readCrucialBytes sample_fs ''/a/locked.bin'' 20000 =
     Inl (PathError ''open'' ''/a/locked.bin'' EACCES)"
  by (simp add: thresholdFileSize_eq sample_fs_def regular_file_def sample_content_def
      readCrucialBytes_def os_Open_def)


lemma os_Lstat_Some: "fs p = Some f \<Longrightarrow> os_Lstat fs p = Inr f"
  by (simp add: os_Lstat_def)

lemma os_ReadFile_regular:
  "fs p = Some f \<Longrightarrow> mode f = ModeRegular \<Longrightarrow>
   os_ReadFile fs p = (if readable f then Inr (content f) else Inl (PathError ''open'' p EACCES))"
  by (simp add: os_ReadFile_def)

lemma fileHash_regular:
  assumes "fs p = Some f" and "mode f = ModeRegular"
  shows "fileHash fs p isThorough =
    (case (if isThorough then ([], os_ReadFile fs p)
           else if st_size f \<le> thresholdFileSize then (''f'', os_ReadFile fs p)
           else (''s'', readCrucialBytes fs p (st_size f))) of
       (prefix, Inl fileReadErr) \<Rightarrow> Inl (ErrorfW ''couldn't calculate hash'' fileReadErr)
     | (prefix, Inr bytes) \<Rightarrow>
         Inr (prefix @ hex_EncodeToString ((if isThorough then sha256_Sum else crc32_Sum) bytes)))"
  using assms by (simp add: fileHash_def os_Lstat_Some IsRegular_def)

text \<open>
  Claim C2. For a regular file, a hash string that \<^verbatim>\<open>fileHash\<close> produces is: in thorough
  mode the lowercase hexadecimal SHA-256 of the whole content, without prefix; in fast mode
  with a size of at most 16 KiB the character \<open>f\<close> followed by the lowercase hexadecimal
  CRC32 of the whole content; in fast mode with a larger size the character \<open>s\<close> followed
  by the lowercase hexadecimal CRC32 of the bytes that \<^verbatim>\<open>readCrucialBytes\<close> sampled. A
  readable file does get its hash string in each of the three cases (in the third, when
  its content length still equals its size). That the encoding is lowercase hexadecimal
  is lemma \<open>hex_EncodeToString_lowercase\<close>.
\<close>

theorem fileHash_modes:
  assumes "fs p = Some f" and "mode f = ModeRegular"
  shows "(\<forall>h. fileHash fs p True = Inr h \<longrightarrow>
            h = hex_EncodeToString (sha256_Sum (content f))) \<and>
         (st_size f \<le> 16384 \<longrightarrow>
            (\<forall>h. fileHash fs p False = Inr h \<longrightarrow>
               h = ''f'' @ hex_EncodeToString (crc32_Sum (content f)))) \<and>
         (16384 < st_size f \<longrightarrow>
            (\<forall>h. fileHash fs p False = Inr h \<longrightarrow>
               (\<exists>bytes. readCrucialBytes fs p (st_size f) = Inr bytes \<and>
                  h = ''s'' @ hex_EncodeToString (crc32_Sum bytes)))) \<and>
         (readable f \<longrightarrow>
            fileHash fs p True = Inr (hex_EncodeToString (sha256_Sum (content f))) \<and>
            (st_size f \<le> 16384 \<longrightarrow>
               fileHash fs p False = Inr (''f'' @ hex_EncodeToString (crc32_Sum (content f)))) \<and>
            (16384 < st_size f \<and> st_size f = int (length (content f)) \<longrightarrow>
               fileHash fs p False =
                 Inr (''s'' @ hex_EncodeToString (crc32_Sum (crucial_bytes (content f))))))"
proof -
  note rf = os_ReadFile_regular [of fs p f, OF assms]
  have thorough: "\<forall>h. fileHash fs p True = Inr h \<longrightarrow>
      h = hex_EncodeToString (sha256_Sum (content f))"
    by (simp add: fileHash_regular [of fs p f, OF assms] rf)
  have small: "st_size f \<le> 16384 \<longrightarrow>
      (\<forall>h. fileHash fs p False = Inr h \<longrightarrow>
         h = ''f'' @ hex_EncodeToString (crc32_Sum (content f)))"
    by (simp add: fileHash_regular [of fs p f, OF assms] rf thresholdFileSize_eq)
  have large: "16384 < st_size f \<longrightarrow>
      (\<forall>h. fileHash fs p False = Inr h \<longrightarrow>
         (\<exists>bytes. readCrucialBytes fs p (st_size f) = Inr bytes \<and>
            h = ''s'' @ hex_EncodeToString (crc32_Sum bytes)))"
    by (auto simp add: fileHash_regular [of fs p f, OF assms] thresholdFileSize_eq split: sum.splits)
  have prod1: "readable f \<longrightarrow>
      fileHash fs p True = Inr (hex_EncodeToString (sha256_Sum (content f)))"
    by (simp add: fileHash_regular [of fs p f, OF assms] rf)
  have prod2: "readable f \<longrightarrow> st_size f \<le> 16384 \<longrightarrow>
      fileHash fs p False = Inr (''f'' @ hex_EncodeToString (crc32_Sum (content f)))"
    by (simp add: fileHash_regular [of fs p f, OF assms] rf thresholdFileSize_eq)
  have prod3: "readable f \<longrightarrow> 16384 < st_size f \<and> st_size f = int (length (content f)) \<longrightarrow>
      fileHash fs p False =
        Inr (''s'' @ hex_EncodeToString (crc32_Sum (crucial_bytes (content f))))"
  proof (intro impI)
    assume r: "readable f" and sz: "16384 < st_size f \<and> st_size f = int (length (content f))"
    then have "thresholdFileSize < st_size f" and "int (length (content f)) = st_size f"
      by (simp_all add: thresholdFileSize_eq)
    from readCrucialBytes_regular [of "st_size f" fs p f, OF this(1) assms this(2)] r
    have "readCrucialBytes fs p (st_size f) = Inr (crucial_bytes (content f))" by simp
    with sz show "fileHash fs p False =
        Inr (''s'' @ hex_EncodeToString (crc32_Sum (crucial_bytes (content f))))"
      by (simp add: fileHash_regular [of fs p f, OF assms] thresholdFileSize_eq)
  qed
  from thorough small large prod1 prod2 prod3 show ?thesis by blast
qed



text \<open>
  Test vectors of the two digests, evaluated on the definitions above: the check value of
  CRC-32 (the digits \<open>123456789\<close>), the checksum of the single letter \<open>a\<close>, and the
  SHA-256 digest of \<open>abc\<close> from FIPS 180-4.
\<close>

lemma crc32_Sum_check:
  "hex_EncodeToString (crc32_Sum [0x31, 0x32, 0x33, 0x34, 0x35, 0x36, 0x37, 0x38, 0x39]) =
     ''cbf43926''"
  by code_simp

lemma sha256_Sum_abc:
  "hex_EncodeToString (sha256_Sum [0x61, 0x62, 0x63]) =
     ''ba7816bf8f01cfea414140de5dae2223b00361a396177a9cb410ff61f20015ad''"
  by code_simp

lemma crc32_Sum_a: "hex_EncodeToString (crc32_Sum [0x61]) = ''e8b7be43''"
  by code_simp

lemma sample_content_length: "length sample_content = 20000"
  by (simp add: sample_content_def)

lemma crucial_bytes_sample:
  "crucial_bytes sample_content = replicate 8192 1 @ replicate 4096 2 @ replicate 4096 3"
  by (simp add: crucial_bytes_def sample_content_def)



text \<open>A file holding the single byte \<open>a\<close>, and a file of 20000 bytes.\<close>

theorem fileHash_modes_witness:
  "sample_fs ''/a/x.txt'' = Some (regular_file [0x61] True) \<and>
   fileHash sample_fs ''/a/x.txt'' True = Inr (hex_EncodeToString (sha256_Sum [0x61])) \<and>
   fileHash sample_fs ''/a/x.txt'' False = Inr ''fe8b7be43'' \<and>
   fileHash sample_fs ''/a/big.bin'' False =
     Inr (''s'' @ hex_EncodeToString
            (crc32_Sum (replicate 8192 1 @ replicate 4096 2 @ replicate 4096 3)))"
proof -
  have a: "sample_fs ''/a/x.txt'' = Some (regular_file [0x61] True)"
    by (simp add: sample_fs_def)
  have b: "sample_fs ''/a/big.bin'' = Some (regular_file sample_content True)"
    by (simp add: sample_fs_def)
  have m: "mode (regular_file c r) = ModeRegular" for c r
    by (simp add: regular_file_def)
  have r: "readable (regular_file c True)" for c
    by (simp add: regular_file_def)
  have "st_size (regular_file [0x61] True) \<le> 16384"
    by (simp add: regular_file_def)
  with fileHash_modes [of sample_fs "''/a/x.txt''" "regular_file [0x61] True", OF a m] r
  have "fileHash sample_fs ''/a/x.txt'' True =
          Inr (hex_EncodeToString (sha256_Sum (content (regular_file [0x61] True)))) \<and>
        fileHash sample_fs ''/a/x.txt'' False =
          Inr (''f'' @ hex_EncodeToString (crc32_Sum (content (regular_file [0x61] True))))"
    by blast
  then have x: "fileHash sample_fs ''/a/x.txt'' True = Inr (hex_EncodeToString (sha256_Sum [0x61])) \<and>
   fileHash sample_fs ''/a/x.txt'' False = Inr ''fe8b7be43''"
    by (simp add: regular_file_def crc32_Sum_a)
  have "16384 < st_size (regular_file sample_content True) \<and>
        st_size (regular_file sample_content True) =
          int (length (content (regular_file sample_content True)))"
    by (simp add: regular_file_def sample_content_length)
  with fileHash_modes [of sample_fs "''/a/big.bin''" "regular_file sample_content True", OF b m] r
  have "fileHash sample_fs ''/a/big.bin'' False =
     Inr (''s'' @ hex_EncodeToString
        (crc32_Sum (crucial_bytes (content (regular_file sample_content True)))))"
    by blast
  then have y: "fileHash sample_fs ''/a/big.bin'' False =
     Inr (''s'' @ hex_EncodeToString
            (crc32_Sum (replicate 8192 1 @ replicate 4096 2 @ replicate 4096 3)))"
    by (simp add: regular_file_def crucial_bytes_sample)
  from a x y show ?thesis by blast
qed


text \<open>
  Claim C3. For a regular file larger than the threshold of 16 KiB whose content length
  equals its size, the bytes hashed in fast mode are the first 8192 bytes, then the 4096
  bytes from offset \<open>size div 2\<close>, then the last 4096 bytes of the file, in this order:
  16384 bytes whatever the size of the file.
\<close>

theorem fileHash_crucial_bytes:
  assumes "fs p = Some f" and "mode f = ModeRegular"
    and "st_size f = int (length (content f))" and "thresholdFileSize < st_size f"
  shows "thresholdFileSize = 16384 \<and>
         length (take 8192 (content f)) = 8192 \<and>
         length (take 4096 (drop (nat (st_size f div 2)) (content f))) = 4096 \<and>
         length (drop (length (content f) - 4096) (content f)) = 4096 \<and>
         crucial_bytes (content f) =
           take 8192 (content f) @ take 4096 (drop (nat (st_size f div 2)) (content f)) @
           drop (length (content f) - 4096) (content f) \<and>
         length (crucial_bytes (content f)) = 16384 \<and>
         (\<forall>bytes. readCrucialBytes fs p (st_size f) = Inr bytes \<longrightarrow>
            bytes = crucial_bytes (content f)) \<and>
         (\<forall>h. fileHash fs p False = Inr h \<longrightarrow>
            h = ''s'' @ hex_EncodeToString (crc32_Sum (crucial_bytes (content f)))) \<and>
         (readable f \<longrightarrow>
            readCrucialBytes fs p (st_size f) = Inr (crucial_bytes (content f)) \<and>
            fileHash fs p False =
              Inr (''s'' @ hex_EncodeToString (crc32_Sum (crucial_bytes (content f)))))"
proof -
  from assms(3,4) have len: "16384 < length (content f)"
    by (simp add: thresholdFileSize_eq)
  have mid: "nat (st_size f div 2) = length (content f) div 2"
    using assms(3) by linarith
  have l1: "length (take 8192 (content f)) = 8192" using len by simp
  have l2: "length (take 4096 (drop (nat (st_size f div 2)) (content f))) = 4096"
    using len by (simp add: mid)
  have l3: "length (drop (length (content f) - 4096) (content f)) = 4096"
    using len by simp
  have cb: "crucial_bytes (content f) =
           take 8192 (content f) @ take 4096 (drop (nat (st_size f div 2)) (content f)) @
           drop (length (content f) - 4096) (content f)"
    by (simp add: crucial_bytes_def mid)
  have l: "length (crucial_bytes (content f)) = 16384"
    using len by (rule crucial_bytes_length)
  have rcb: "readCrucialBytes fs p (st_size f) =
         (if readable f then Inr (crucial_bytes (content f))
          else Inl (PathError ''open'' p EACCES))"
    by (rule readCrucialBytes_regular [of "st_size f" fs p f, OF assms(4,1,2) assms(3) [symmetric]])
  have r1: "\<forall>bytes. readCrucialBytes fs p (st_size f) = Inr bytes \<longrightarrow>
            bytes = crucial_bytes (content f)"
    by (simp add: rcb)
  have fh: "fileHash fs p False =
      (if readable f
       then Inr (''s'' @ hex_EncodeToString (crc32_Sum (crucial_bytes (content f))))
       else Inl (ErrorfW ''couldn't calculate hash'' (PathError ''open'' p EACCES)))"
    using assms(4) by (simp add: fileHash_regular [of fs p f, OF assms(1,2)] rcb)
  have r2: "\<forall>h. fileHash fs p False = Inr h \<longrightarrow>
            h = ''s'' @ hex_EncodeToString (crc32_Sum (crucial_bytes (content f)))"
    by (simp add: fh)
  have r3: "readable f \<longrightarrow>
            readCrucialBytes fs p (st_size f) = Inr (crucial_bytes (content f)) \<and>
            fileHash fs p False =
              Inr (''s'' @ hex_EncodeToString (crc32_Sum (crucial_bytes (content f))))"
    by (simp add: fh rcb)
  from thresholdFileSize_eq l1 l2 l3 cb l r1 r2 r3 show ?thesis by blast
qed

text \<open>The file of 20000 bytes: the three runs of ones, twos and threes are sampled, the
  nines between them are not.\<close>

theorem fileHash_crucial_bytes_witness:
  "sample_fs ''/a/big.bin'' = Some (regular_file sample_content True) \<and>
   st_size (regular_file sample_content True) = 20000 \<and>
   length (content (regular_file sample_content True)) = 20000 \<and>
   readCrucialBytes sample_fs ''/a/big.bin'' 20000 =
     Inr (replicate 8192 1 @ replicate 4096 2 @ replicate 4096 3) \<and>
   length (replicate 8192 (1 :: byte) @ replicate 4096 2 @ replicate 4096 3) = 16384"
proof -
  have b: "sample_fs ''/a/big.bin'' = Some (regular_file sample_content True)"
    by (simp add: sample_fs_def)
  have m: "mode (regular_file sample_content True) = ModeRegular"
    by (simp add: regular_file_def)
  have s: "st_size (regular_file sample_content True) =
           int (length (content (regular_file sample_content True)))"
    by (simp add: regular_file_def)
  have t: "thresholdFileSize < st_size (regular_file sample_content True)"
    by (simp add: regular_file_def sample_content_length thresholdFileSize_eq)
  have r: "readable (regular_file sample_content True)"
    by (simp add: regular_file_def)
  have z: "st_size (regular_file sample_content True) = 20000 \<and>
           content (regular_file sample_content True) = sample_content"
    by (simp add: regular_file_def sample_content_length)
  from fileHash_crucial_bytes
         [of sample_fs "''/a/big.bin''" "regular_file sample_content True", OF b m s t] r
  have "readCrucialBytes sample_fs ''/a/big.bin'' (st_size (regular_file sample_content True)) =
          Inr (crucial_bytes (content (regular_file sample_content True)))"
    by blast
  then have "readCrucialBytes sample_fs ''/a/big.bin'' 20000 =
     Inr (replicate 8192 1 @ replicate 4096 2 @ replicate 4096 3)"
    by (simp only: z crucial_bytes_sample)
  with b z show ?thesis by (simp add: sample_content_length)
qed

text \<open>
  Claim C6. For a path whose \<^verbatim>\<open>Lstat\<close> reports a file that is not regular (a symbolic
  link, a directory, a device, ...), \<^verbatim>\<open>GetDigest\<close> returns an error and no digest; a digest
  is produced only when \<^verbatim>\<open>Lstat\<close> succeeds and reports a regular file.
\<close>

theorem GetDigest_regular_only:
  "(\<forall>f. os_Lstat fs p = Inr f \<longrightarrow> \<not> IsRegular (mode f) \<longrightarrow>
        GetDigest GetFileExt fs p isThorough =
          Inl (Errorf ''can't compute hash of non-regular file'')) \<and>
   (\<forall>d. GetDigest GetFileExt fs p isThorough = Inr d \<longrightarrow>
        (\<exists>f. os_Lstat fs p = Inr f \<and> IsRegular (mode f))) \<and>
   \<not> IsRegular ModeSymlink \<and> \<not> IsRegular ModeDir \<and> \<not> IsRegular ModeDevice \<and>
   \<not> IsRegular ModeCharDevice \<and> \<not> IsRegular ModeNamedPipe \<and> \<not> IsRegular ModeSocket \<and>
   \<not> IsRegular ModeIrregular"
proof -
  have a: "\<forall>f. os_Lstat fs p = Inr f \<longrightarrow> \<not> IsRegular (mode f) \<longrightarrow>
        GetDigest GetFileExt fs p isThorough =
          Inl (Errorf ''can't compute hash of non-regular file'')"
    by (simp add: GetDigest_def fileHash_def)
  have b: "\<forall>d. GetDigest GetFileExt fs p isThorough = Inr d \<longrightarrow>
        (\<exists>f. os_Lstat fs p = Inr f \<and> IsRegular (mode f))"
    by (auto simp add: GetDigest_def fileHash_def split: sum.splits if_splits)
  from a b show ?thesis by (simp add: IsRegular_def)
qed

text \<open>A symbolic link and a directory are rejected, a regular file is digested.\<close>

theorem GetDigest_regular_only_witness:
  "GetDigest (\<lambda>name. ''.txt'') sample_fs ''/a/link'' False =
     Inl (Errorf ''can't compute hash of non-regular file'') \<and>
   GetDigest (\<lambda>name. ''.txt'') sample_fs ''/a/dir'' True =
     Inl (Errorf ''can't compute hash of non-regular file'') \<and>
   os_Lstat sample_fs ''/a/x.txt'' = Inr (regular_file [0x61] True) \<and>
   IsRegular (mode (regular_file [0x61] True)) \<and>
   GetDigest (\<lambda>name. ''.txt'') sample_fs ''/a/x.txt'' False =
     Inr \<lparr>FileExtension = ''.txt'', FileSize = 1, FileHash = ''fe8b7be43''\<rparr>"
proof -
  have l: "os_Lstat sample_fs ''/a/link'' =
      Inr \<lparr>mode = ModeSymlink, st_size = 9, content = [0x61], readable = True,
           removable = True\<rparr>"
    by (simp add: os_Lstat_def sample_fs_def)
  have d: "os_Lstat sample_fs ''/a/dir'' =
      Inr \<lparr>mode = ModeDir, st_size = 4096, content = [], readable = True,
           removable = False\<rparr>"
    by (simp add: os_Lstat_def sample_fs_def)
  have x: "os_Lstat sample_fs ''/a/x.txt'' = Inr (regular_file [0x61] True)"
    by (simp add: os_Lstat_def sample_fs_def)
  have rf: "os_ReadFile sample_fs ''/a/x.txt'' = Inr [0x61]"
    by (simp add: os_ReadFile_def sample_fs_def regular_file_def)
  have g: "GetDigest (\<lambda>name. ''.txt'') sample_fs ''/a/x.txt'' False =
     Inr \<lparr>FileExtension = ''.txt'', FileSize = 1, FileHash = ''fe8b7be43''\<rparr>"
    by (simp add: GetDigest_def fileHash_def x rf IsRegular_def regular_file_def
        thresholdFileSize_eq crc32_Sum_a)
  from GetDigest_regular_only [of sample_fs "''/a/link''" "\<lambda>name. ''.txt''" False] l
  have e1: "GetDigest (\<lambda>name. ''.txt'') sample_fs ''/a/link'' False =
     Inl (Errorf ''can't compute hash of non-regular file'')"
    by (simp add: IsRegular_def)
  from GetDigest_regular_only [of sample_fs "''/a/dir''" "\<lambda>name. ''.txt''" True] d
  have e2: "GetDigest (\<lambda>name. ''.txt'') sample_fs ''/a/dir'' True =
     Inl (Errorf ''can't compute hash of non-regular file'')"
    by (simp add: IsRegular_def)
  from e1 e2 x g show ?thesis by (simp add: IsRegular_def regular_file_def)
qed

section \<open>Removal of duplicates: properties\<close>

lemma range_paths_pos: "0 < i \<Longrightarrow> range_paths i paths s = remove_each paths s"
proof (induction paths arbitrary: i s)
  case Nil
  show ?case by (cases s) simp
next
  case (Cons p paths)
  then show ?case by (cases s) (simp split: prod.splits)
qed

lemma range_paths_0: "range_paths 0 paths s = remove_each (tl paths) s"
proof (cases paths)
  case Nil
  then show ?thesis by (cases s) simp
next
  case (Cons p rest)
  then show ?thesis by (cases s) (simp add: range_paths_pos)
qed

lemma remove_each_append:
  "remove_each (xs @ ys) s = remove_each ys (remove_each xs s)"
proof (induction xs arbitrary: s)
  case Nil
  show ?case by simp
next
  case (Cons x xs)
  then show ?case by (cases s) (simp split: prod.splits)
qed

lemma iterate_remove_each:
  "iterate duplicates s = remove_each (removal_targets duplicates) s"
proof (induction duplicates arbitrary: s)
  case Nil
  show ?case by (simp add: removal_targets_def)
next
  case (Cons entry duplicates)
  then show ?case
    by (cases entry) (simp add: removal_targets_def range_paths_0 remove_each_append)
qed

lemma RemoveDuplicates_remove_each:
  "RemoveDuplicates duplicates fs = remove_each (removal_targets duplicates) ([], fs)"
  by (simp add: RemoveDuplicates_def iterate_remove_each)

lemma os_Remove_eq:
  "os_Remove fs p =
     (if can_remove fs p then (None, fs(p := None)) else (Some (remove_error fs p), fs))"
  by (simp add: os_Remove_def can_remove_def remove_error_def split: option.splits)

lemma os_Remove_cases:
  fixes fs :: filesystem and p :: path
  obtains (removed) fs' where "can_remove fs p" and "os_Remove fs p = (None, fs')"
      and "\<And>q. fs' q = (if q = p then None else fs q)"
      and "\<And>q. can_remove fs' q = (q \<noteq> p \<and> can_remove fs q)"
      and "\<And>q. q \<noteq> p \<Longrightarrow> remove_error fs' q = remove_error fs q"
    | (failed) "\<not> can_remove fs p" and "os_Remove fs p = (Some (remove_error fs p), fs)"
proof (cases "can_remove fs p")
  case True
  show ?thesis
  proof (rule removed [of "fs(p := None)"])
    show "can_remove fs p" by (rule True)
    show "os_Remove fs p = (None, fs(p := None))" using True by (simp add: os_Remove_eq)
    show "(fs(p := None)) q = (if q = p then None else fs q)" for q by simp
    show "can_remove (fs(p := None)) q = (q \<noteq> p \<and> can_remove fs q)" for q
      by (simp add: can_remove_def)
    show "remove_error (fs(p := None)) q = remove_error fs q" if "q \<noteq> p" for q
      using that by (simp add: remove_error_def)
  qed
next
  case False
  then show ?thesis by (intro failed) (simp_all add: os_Remove_eq)
qed

lemma remove_each_fs:
  "snd (remove_each paths (err, fs)) q =
     (if q \<in> set paths \<and> can_remove fs q then None else fs q)"
proof (induction paths arbitrary: err fs)
  case Nil
  show ?case by simp
next
  case (Cons p paths)
  show ?case
  proof (cases rule: os_Remove_cases [of fs p])
    case (removed fs')
    have "snd (remove_each (p # paths) (err, fs)) q = snd (remove_each paths (err, fs')) q"
      by (simp add: removed(2) multierr_Append_def)
    also have "\<dots> = (if q \<in> set paths \<and> can_remove fs' q then None else fs' q)"
      by (rule Cons.IH)
    also have "\<dots> = (if q \<in> set (p # paths) \<and> can_remove fs q then None else fs q)"
      using removed(1) by (auto simp add: removed(3,4))
    finally show ?thesis .
  next
    case failed
    have "snd (remove_each (p # paths) (err, fs)) q =
          snd (remove_each paths (err @ [remove_error fs p], fs)) q"
      by (simp add: failed(2) multierr_Append_def)
    also have "\<dots> = (if q \<in> set paths \<and> can_remove fs q then None else fs q)"
      by (rule Cons.IH)
    also have "\<dots> = (if q \<in> set (p # paths) \<and> can_remove fs q then None else fs q)"
      using failed(1) by auto
    finally show ?thesis .
  qed
qed

lemma remove_each_errors:
  "distinct paths \<Longrightarrow>
   fst (remove_each paths (err, fs)) =
     err @ map (remove_error fs) (filter (\<lambda>p. \<not> can_remove fs p) paths)"
proof (induction paths arbitrary: err fs)
  case Nil
  show ?case by simp
next
  case (Cons p paths)
  then have notin: "p \<notin> set paths" and d: "distinct paths" by simp_all
  show ?case
  proof (cases rule: os_Remove_cases [of fs p])
    case (removed fs')
    have "filter (\<lambda>q. \<not> can_remove fs' q) paths = filter (\<lambda>q. \<not> can_remove fs q) paths"
      using notin by (auto intro!: filter_cong simp add: removed(4))
    moreover have "map (remove_error fs') (filter (\<lambda>q. \<not> can_remove fs q) paths) =
          map (remove_error fs) (filter (\<lambda>q. \<not> can_remove fs q) paths)"
      using notin by (auto intro!: map_cong removed(5))
    moreover have "fst (remove_each (p # paths) (err, fs)) = fst (remove_each paths (err, fs'))"
      by (simp add: removed(2) multierr_Append_def)
    ultimately show ?thesis
      using removed(1) by (simp add: Cons.IH [OF d])
  next
    case failed
    have "fst (remove_each (p # paths) (err, fs)) =
          fst (remove_each paths (err @ [remove_error fs p], fs))"
      by (simp add: failed(2) multierr_Append_def)
    then show ?thesis
      using failed(1) by (simp add: Cons.IH [OF d])
  qed
qed

lemma remove_each_keeps_errors:
  "set err \<subseteq> set (fst (remove_each paths (err, fs)))"
proof (induction paths arbitrary: err fs)
  case Nil
  show ?case by simp
next
  case (Cons p paths)
  show ?case
  proof (cases rule: os_Remove_cases [of fs p])
    case (removed fs')
    show ?thesis using Cons.IH [of err fs'] by (simp add: removed(2) multierr_Append_def)
  next
    case failed
    show ?thesis using Cons.IH [of "err @ [remove_error fs p]" fs]
      by (simp add: failed(2) multierr_Append_def)
  qed
qed

lemma remove_each_reports:
  "p \<in> set paths \<Longrightarrow> \<not> can_remove fs p \<Longrightarrow>
   remove_error fs p \<in> set (fst (remove_each paths (err, fs)))"
proof (induction paths arbitrary: err fs)
  case Nil
  then show ?case by simp
next
  case (Cons x paths)
  show ?case
  proof (cases rule: os_Remove_cases [of fs x])
    case (removed fs')
    with Cons.prems have ne: "p \<noteq> x" and "p \<in> set paths" by auto
    moreover from ne Cons.prems(2) have "\<not> can_remove fs' p" by (simp add: removed(4))
    ultimately have "remove_error fs' p \<in> set (fst (remove_each paths (err, fs')))"
      by (intro Cons.IH)
    with ne show ?thesis by (simp add: removed(2,5) multierr_Append_def)
  next
    case failed
    show ?thesis
    proof (cases "p = x")
      case True
      have "remove_error fs x \<in> set (err @ [remove_error fs x])" by simp
      with remove_each_keeps_errors [of "err @ [remove_error fs x]" paths fs] True
      show ?thesis by (auto simp add: failed(2) multierr_Append_def)
    next
      case False
      with Cons.prems have "p \<in> set paths" by simp
      from Cons.IH [OF this Cons.prems(2), of "err @ [remove_error fs x]"]
      show ?thesis by (simp add: failed(2) multierr_Append_def)
    qed
  qed
qed

lemma removal_targets_subset:
  "set (removal_targets duplicates) \<subseteq> set (concat (map snd duplicates))"
proof (induction duplicates)
  case Nil
  show ?case by (simp add: removal_targets_def)
next
  case (Cons entry duplicates)
  have "set (tl (snd entry)) \<subseteq> set (snd entry)"
    by (cases "snd entry") auto
  with Cons show ?case
    by (cases entry) (auto simp add: removal_targets_def)
qed

lemma removal_targets_Cons:
  "removal_targets ((digest, paths) # duplicates) = tl paths @ removal_targets duplicates"
  by (simp add: removal_targets_def)

lemma distinct_removal_targets:
  "distinct (concat (map snd duplicates)) \<Longrightarrow> distinct (removal_targets duplicates)"
proof (induction duplicates)
  case Nil
  show ?case by (simp add: removal_targets_def)
next
  case (Cons entry duplicates)
  obtain digest paths where e: "entry = (digest, paths)" by (cases entry)
  from Cons.prems e have d1: "distinct paths" and d2: "distinct (concat (map snd duplicates))"
    and d3: "set paths \<inter> set (concat (map snd duplicates)) = {}" by auto
  have "set (tl paths) \<subseteq> set paths" by (cases paths) auto
  with d3 removal_targets_subset [of duplicates]
  have "set (tl paths) \<inter> set (removal_targets duplicates) = {}" by blast
  with d1 Cons.IH [OF d2] show ?case
    by (simp add: e removal_targets_Cons distinct_tl)
qed

lemma index_0_not_target:
  "distinct (concat (map snd duplicates)) \<Longrightarrow> (digest, p0 # rest) \<in> set duplicates \<Longrightarrow>
   p0 \<notin> set (removal_targets duplicates)"
proof (induction duplicates)
  case Nil
  then show ?case by simp
next
  case (Cons entry duplicates)
  obtain k paths where e: "entry = (k, paths)" by (cases entry)
  from Cons.prems(1) e have d1: "distinct paths" and d2: "distinct (concat (map snd duplicates))"
    and d3: "set paths \<inter> set (concat (map snd duplicates)) = {}" by auto
  have sub: "set (tl paths) \<subseteq> set paths" by (cases paths) auto
  show ?case
  proof (cases "entry = (digest, p0 # rest)")
    case True
    with e have p: "paths = p0 # rest" by simp
    with d1 have "p0 \<notin> set (tl paths)" by simp
    moreover from p d3 removal_targets_subset [of duplicates]
    have "p0 \<notin> set (removal_targets duplicates)" by auto
    ultimately show ?thesis by (simp add: e removal_targets_Cons)
  next
    case False
    with Cons.prems(2) have m: "(digest, p0 # rest) \<in> set duplicates" by simp
    then have "p0 \<in> set (concat (map snd duplicates))" by force
    with d3 sub have "p0 \<notin> set (tl paths)" by blast
    with Cons.IH [OF d2 m] show ?thesis by (simp add: e removal_targets_Cons)
  qed
qed

lemma rest_are_targets:
  "(digest, p0 # rest) \<in> set duplicates \<Longrightarrow> set rest \<subseteq> set (removal_targets duplicates)"
  by (force simp add: removal_targets_def)


lemma RemoveDuplicates_fs:
  "snd (RemoveDuplicates duplicates fs) q =
     (if q \<in> set (removal_targets duplicates) \<and> can_remove fs q then None else fs q)"
  by (simp only: RemoveDuplicates_remove_each remove_each_fs)

lemma RemoveDuplicates_errors:
  "distinct (concat (map snd duplicates)) \<Longrightarrow>
   fst (RemoveDuplicates duplicates fs) =
     map (remove_error fs) (filter (\<lambda>p. \<not> can_remove fs p) (removal_targets duplicates))"
  by (simp add: RemoveDuplicates_remove_each remove_each_errors distinct_removal_targets)

lemma RemoveDuplicates_reports:
  "p \<in> set (removal_targets duplicates) \<Longrightarrow> \<not> can_remove fs p \<Longrightarrow>
   remove_error fs p \<in> set (fst (RemoveDuplicates duplicates fs))"
  by (simp add: RemoveDuplicates_remove_each remove_each_reports)

text \<open>
  Claim C10. \<^verbatim>\<open>RemoveDuplicates\<close> never deletes the first element of a group's path list
  as the store holds it: the calls of \<^verbatim>\<open>os.Remove\<close> are exactly those on the elements at
  index 1 and above of every list, in order; and in a store whose paths are pairwise
  distinct (every file was added once, see \<open>finalized_store_paths_distinct\<close>), the path at
  index 0 of every group is not among the paths handed to \<^verbatim>\<open>os.Remove\<close> and its entry in
  the file system is unchanged, whatever the order of the list and whichever of the other
  deletions fail (the file system is arbitrary).
\<close>

theorem RemoveDuplicates_retains_index_0:
  assumes "distinct (concat (map snd duplicates))"
    and "(digest, p0 # rest) \<in> set duplicates"
  shows "RemoveDuplicates duplicates fs = remove_each (removal_targets duplicates) ([], fs) \<and>
         p0 \<notin> set (removal_targets duplicates) \<and>
         snd (RemoveDuplicates duplicates fs) p0 = fs p0"
proof -
  have calls: "RemoveDuplicates duplicates fs = remove_each (removal_targets duplicates) ([], fs)"
    by (rule RemoveDuplicates_remove_each)
  from assms have n: "p0 \<notin> set (removal_targets duplicates)" by (rule index_0_not_target)
  then have "snd (RemoveDuplicates duplicates fs) p0 = fs p0"
    by (simp add: RemoveDuplicates_fs)
  with calls n show ?thesis by blast
qed

text \<open>An unsorted group of three paths, the second of which cannot be deleted.\<close>

theorem RemoveDuplicates_retains_index_0_witness:
  "distinct (concat (map snd three_copies)) \<and>
   (txt_digest, [''/b/3.txt'', ''/b/1.txt'', ''/b/2.txt'']) \<in> set three_copies \<and>
   removal_targets three_copies = [''/b/1.txt'', ''/b/2.txt''] \<and>
   fst (RemoveDuplicates three_copies locked_fs) = [PathError ''remove'' ''/b/1.txt'' EACCES] \<and>
   locked_fs ''/b/3.txt'' \<noteq> None \<and>
   snd (RemoveDuplicates three_copies locked_fs) ''/b/3.txt'' = locked_fs ''/b/3.txt''"
proof -
  have d: "distinct (concat (map snd three_copies))"
    by (simp add: three_copies_def)
  have m: "(txt_digest, ''/b/3.txt'' # [''/b/1.txt'', ''/b/2.txt'']) \<in> set three_copies"
    by (simp add: three_copies_def)
  have t: "removal_targets three_copies = [''/b/1.txt'', ''/b/2.txt'']"
    by (simp add: three_copies_def removal_targets_def)
  have e: "fst (RemoveDuplicates three_copies locked_fs) =
      [PathError ''remove'' ''/b/1.txt'' EACCES]"
    by (simp add: RemoveDuplicates_errors [OF d] t can_remove_def remove_error_def
        locked_fs_def regular_file_def)
  have f: "locked_fs ''/b/3.txt'' \<noteq> None" by (simp add: locked_fs_def)
  from RemoveDuplicates_retains_index_0 [OF d m, of locked_fs]
  have k: "snd (RemoveDuplicates three_copies locked_fs) ''/b/3.txt'' = locked_fs ''/b/3.txt''"
    by blast
  from d m t e f k show ?thesis by simp
qed

text \<open>
  Claim C1, as amended. For every group of a store whose paths are pairwise distinct,
  \<^verbatim>\<open>RemoveDuplicates\<close> retains the path at index 0 of the group's list, in the order in
  which the store holds the list, and deletes every other path of the group whose deletion
  does not fail; the path retained is the lexicographically first one when the list is
  sorted. Every failed deletion is reported: the combined error holds the errors of all
  failing deletions, in the order of the calls, so deletion does not stop at the first
  failure.
\<close>

theorem RemoveDuplicates_keeps_index_0_removes_rest:
  assumes "distinct (concat (map snd duplicates))"
    and "(digest, p0 # rest) \<in> set duplicates"
  shows "snd (RemoveDuplicates duplicates fs) p0 = fs p0 \<and>
         (\<forall>p \<in> set rest.
            snd (RemoveDuplicates duplicates fs) p = (if can_remove fs p then None else fs p)) \<and>
         (\<forall>p \<in> set rest.
            \<not> can_remove fs p \<longrightarrow>
            remove_error fs p \<in> set (fst (RemoveDuplicates duplicates fs))) \<and>
         fst (RemoveDuplicates duplicates fs) =
           map (remove_error fs)
             (filter (\<lambda>p. \<not> can_remove fs p) (removal_targets duplicates)) \<and>
         (sorted (p0 # rest) \<longrightarrow> lexicographically_first (p0 # rest) p0)"
proof -
  from assms have "p0 \<notin> set (removal_targets duplicates)" by (rule index_0_not_target)
  then have a: "snd (RemoveDuplicates duplicates fs) p0 = fs p0"
    by (simp add: RemoveDuplicates_fs)
  from assms(2) have sub: "set rest \<subseteq> set (removal_targets duplicates)"
    by (rule rest_are_targets)
  then have b: "\<forall>p \<in> set rest.
      snd (RemoveDuplicates duplicates fs) p = (if can_remove fs p then None else fs p)"
    by (auto simp add: RemoveDuplicates_fs)
  from sub have c: "\<forall>p \<in> set rest.
      \<not> can_remove fs p \<longrightarrow> remove_error fs p \<in> set (fst (RemoveDuplicates duplicates fs))"
    by (auto intro: RemoveDuplicates_reports)
  have e: "sorted (p0 # rest) \<longrightarrow> lexicographically_first (p0 # rest) p0"
    by (simp add: lexicographically_first_def)
  from a b c RemoveDuplicates_errors [OF assms(1), of fs] e show ?thesis by blast
qed

text \<open>A sorted group of four paths: the second is deleted, the third cannot be deleted
  and the fourth is missing.\<close>

theorem RemoveDuplicates_keeps_index_0_removes_rest_witness:
  "distinct (concat (map snd sorted_copies)) \<and>
   (txt_digest, [''/b/1.txt'', ''/b/2.txt'', ''/b/3.txt'', ''/b/4.txt'']) \<in> set sorted_copies \<and>
   snd (RemoveDuplicates sorted_copies locked_fs) ''/b/1.txt'' = locked_fs ''/b/1.txt'' \<and>
   locked_fs ''/b/1.txt'' \<noteq> None \<and>
   snd (RemoveDuplicates sorted_copies locked_fs) ''/b/2.txt'' = None \<and>
   snd (RemoveDuplicates sorted_copies locked_fs) ''/b/3.txt'' = locked_fs ''/b/3.txt'' \<and>
   fst (RemoveDuplicates sorted_copies locked_fs) =
     [PathError ''remove'' ''/b/3.txt'' EACCES, PathError ''remove'' ''/b/4.txt'' ENOENT] \<and>
   lexicographically_first [''/b/1.txt'', ''/b/2.txt'', ''/b/3.txt'', ''/b/4.txt''] ''/b/1.txt''"
proof -
  have d: "distinct (concat (map snd sorted_copies))"
    by (simp add: sorted_copies_def)
  have m: "(txt_digest, ''/b/1.txt'' # [''/b/2.txt'', ''/b/3.txt'', ''/b/4.txt''])
             \<in> set sorted_copies"
    by (simp add: sorted_copies_def)
  have t: "removal_targets sorted_copies = [''/b/2.txt'', ''/b/3.txt'', ''/b/4.txt'']"
    by (simp add: sorted_copies_def removal_targets_def)
  have c: "can_remove locked_fs ''/b/2.txt'' \<and> \<not> can_remove locked_fs ''/b/3.txt'' \<and>
           \<not> can_remove locked_fs ''/b/4.txt''"
    by (simp add: can_remove_def locked_fs_def regular_file_def)
  have r: "remove_error locked_fs ''/b/3.txt'' = PathError ''remove'' ''/b/3.txt'' EACCES \<and>
           remove_error locked_fs ''/b/4.txt'' = PathError ''remove'' ''/b/4.txt'' ENOENT"
    by (simp add: remove_error_def locked_fs_def)
  have f: "locked_fs ''/b/1.txt'' \<noteq> None" by (simp add: locked_fs_def)
  have s: "sorted [''/b/1.txt'', ''/b/2.txt'', ''/b/3.txt'', ''/b/4.txt'']" by simp
  note T = RemoveDuplicates_keeps_index_0_removes_rest [OF d m, of locked_fs]
  from T have k: "snd (RemoveDuplicates sorted_copies locked_fs) ''/b/1.txt'' = locked_fs ''/b/1.txt''"
    by blast
  from T have "\<forall>p \<in> set [''/b/2.txt'', ''/b/3.txt'', ''/b/4.txt''].
      snd (RemoveDuplicates sorted_copies locked_fs) p =
        (if can_remove locked_fs p then None else locked_fs p)"
    by blast
  with c have o: "snd (RemoveDuplicates sorted_copies locked_fs) ''/b/2.txt'' = None \<and>
      snd (RemoveDuplicates sorted_copies locked_fs) ''/b/3.txt'' = locked_fs ''/b/3.txt''"
    by simp
  from T have "fst (RemoveDuplicates sorted_copies locked_fs) =
      map (remove_error locked_fs)
        (filter (\<lambda>p. \<not> can_remove locked_fs p) (removal_targets sorted_copies))"
    by blast
  with c r t have e: "fst (RemoveDuplicates sorted_copies locked_fs) =
     [PathError ''remove'' ''/b/3.txt'' EACCES, PathError ''remove'' ''/b/4.txt'' ENOENT]"
    by simp
  from T s have l: "lexicographically_first [''/b/1.txt'', ''/b/2.txt'', ''/b/3.txt'', ''/b/4.txt''] ''/b/1.txt''"
    by blast
  from d m k f o e l show ?thesis by simp
qed

text \<open>
  Claim C1 as stated fails: given the group \<^verbatim>\<open>["/a/2.txt","/a/1.txt"]\<close>, removal deletes
  \<^verbatim>\<open>/a/1.txt\<close>, the lexicographically first path, and keeps \<^verbatim>\<open>/a/2.txt\<close>.
\<close>

theorem RemoveDuplicates_deletes_lexicographically_first:
  "two_copies = [(txt_digest, [''/a/2.txt'', ''/a/1.txt''])] \<and>
   lexicographically_first [''/a/2.txt'', ''/a/1.txt''] ''/a/1.txt'' \<and>
   two_copies_fs ''/a/1.txt'' \<noteq> None \<and>
   two_copies_fs ''/a/2.txt'' \<noteq> None \<and>
   fst (RemoveDuplicates two_copies two_copies_fs) = [] \<and>
   snd (RemoveDuplicates two_copies two_copies_fs) ''/a/1.txt'' = None \<and>
   snd (RemoveDuplicates two_copies two_copies_fs) ''/a/2.txt'' \<noteq> None"
proof -
  have l: "lexicographically_first [''/a/2.txt'', ''/a/1.txt''] ''/a/1.txt''"
    by (simp add: lexicographically_first_def)
  have t: "removal_targets two_copies = [''/a/1.txt'']"
    by (simp add: two_copies_def removal_targets_def)
  have c: "can_remove two_copies_fs ''/a/1.txt''"
    by (simp add: can_remove_def two_copies_fs_def regular_file_def)
  have f: "two_copies_fs ''/a/1.txt'' \<noteq> None \<and> two_copies_fs ''/a/2.txt'' \<noteq> None"
    by (simp add: two_copies_fs_def)
  have e: "fst (RemoveDuplicates two_copies two_copies_fs) = []"
    by (simp add: RemoveDuplicates_def two_copies_def os_Remove_eq c multierr_Append_def)
  have r: "snd (RemoveDuplicates two_copies two_copies_fs) ''/a/1.txt'' = None \<and>
           snd (RemoveDuplicates two_copies two_copies_fs) ''/a/2.txt'' \<noteq> None"
    using f by (simp add: RemoveDuplicates_fs t c)
  from l f e r show ?thesis by (simp add: two_copies_def)
qed


section \<open>The grouping store and its statistics: properties\<close>

lemma groups_filter: "groups m = filter (\<lambda>e. 2 \<le> length (snd e)) m"
  by (induction m) auto

lemma map_of_add:
  "map_of (add digest p m) k =
     (if k = digest
      then Some ((case map_of m digest of None \<Rightarrow> [] | Some paths \<Rightarrow> paths) @ [p])
      else map_of m k)"
  by (induction m) auto

lemma keys_add:
  "map fst (add digest p m) =
     (if digest \<in> set (map fst m) then map fst m else map fst m @ [digest])"
proof (induction m)
  case Nil
  show ?case by simp
next
  case (Cons e m)
  obtain k paths where e: "e = (k, paths)" by (cases e)
  show ?case using Cons.IH by (cases "k = digest") (simp_all add: e)
qed

lemma distinct_add: "distinct (map fst m) \<Longrightarrow> distinct (map fst (add digest p m))"
  by (simp add: keys_add)

lemma nonempty_add:
  "\<forall>e \<in> set m. snd e \<noteq> [] \<Longrightarrow> \<forall>e \<in> set (add digest p m). snd e \<noteq> []"
proof (induction m)
  case Nil
  show ?case by simp
next
  case (Cons e m)
  obtain k paths where e: "e = (k, paths)" by (cases e)
  from Cons.prems have "\<forall>e \<in> set m. snd e \<noteq> []" by simp
  then have "\<forall>e \<in> set (add digest p m). snd e \<noteq> []" by (rule Cons.IH)
  with Cons.prems show ?case by (cases "k = digest") (simp_all add: e)
qed

lemma distinct_addAll:
  "distinct (map fst m) \<Longrightarrow> distinct (map fst (addAll hashed m))"
proof (induction hashed arbitrary: m)
  case Nil
  then show ?case by simp
next
  case (Cons e hashed)
  then show ?case by (cases e) (simp add: distinct_add)
qed

lemma nonempty_addAll:
  "\<forall>e \<in> set m. snd e \<noteq> [] \<Longrightarrow> \<forall>e \<in> set (addAll hashed m). snd e \<noteq> []"
proof (induction hashed arbitrary: m)
  case Nil
  then show ?case by simp
next
  case (Cons e hashed)
  obtain digest p where e: "e = (digest, p)" by (cases e)
  from Cons.prems have "\<forall>e \<in> set (add digest p m). snd e \<noteq> []" by (rule nonempty_add)
  then have "\<forall>e \<in> set (addAll hashed (add digest p m)). snd e \<noteq> []" by (rule Cons.IH)
  then show ?case by (simp add: e)
qed

lemma map_of_addAll:
  "map_of (addAll hashed m) k =
     (if paths_of k hashed = [] then map_of m k
      else Some ((case map_of m k of None \<Rightarrow> [] | Some paths \<Rightarrow> paths) @ paths_of k hashed))"
proof (induction hashed arbitrary: m)
  case Nil
  show ?case by (simp add: paths_of_def)
next
  case (Cons e hashed)
  obtain digest p where e: "e = (digest, p)" by (cases e)
  show ?case
    by (simp add: e Cons.IH map_of_add paths_of_def split: option.splits)
qed

lemma store_entries:
  "(digest, paths) \<in> set (addAll hashed []) \<longleftrightarrow>
   paths = paths_of digest hashed \<and> paths \<noteq> []"
proof -
  have "distinct (map fst (addAll hashed []))" by (simp add: distinct_addAll)
  then have "(digest, paths) \<in> set (addAll hashed []) \<longleftrightarrow>
      map_of (addAll hashed []) digest = Some paths"
    by simp
  then show ?thesis by (auto simp add: map_of_addAll)
qed

text \<open>
  A store filled from hashed files with pairwise distinct paths (the enumeration yields
  every file once) holds pairwise distinct paths, and so do its reported groups.
\<close>

lemma paths_add:
  "set (concat (map snd (add digest p m))) = insert p (set (concat (map snd m)))"
proof (induction m)
  case Nil
  show ?case by simp
next
  case (Cons e m)
  obtain k paths where e: "e = (k, paths)" by (cases e)
  show ?case using Cons.IH by (cases "k = digest") (auto simp add: e)
qed

lemma distinct_paths_add:
  "distinct (concat (map snd m)) \<Longrightarrow> p \<notin> set (concat (map snd m)) \<Longrightarrow>
   distinct (concat (map snd (add digest p m)))"
proof (induction m)
  case Nil
  show ?case by simp
next
  case (Cons e m)
  obtain k paths where e: "e = (k, paths)" by (cases e)
  from Cons.prems e have d: "distinct (concat (map snd m))" and n: "p \<notin> set (concat (map snd m))"
    by simp_all
  show ?case
  proof (cases "k = digest")
    case True
    with Cons.prems show ?thesis by (auto simp add: e)
  next
    case False
    from Cons.prems e have "set paths \<inter> set (concat (map snd (add digest p m))) = {}"
      by (auto simp only: paths_add) auto
    with False Cons.prems Cons.IH [OF d n] show ?thesis by (simp add: e)
  qed
qed

lemma distinct_paths_addAll:
  "distinct (map snd hashed) \<Longrightarrow> distinct (concat (map snd m)) \<Longrightarrow>
   set (map snd hashed) \<inter> set (concat (map snd m)) = {} \<Longrightarrow>
   distinct (concat (map snd (addAll hashed m)))"
proof (induction hashed arbitrary: m)
  case Nil
  then show ?case by simp
next
  case (Cons e hashed)
  obtain digest p where e: "e = (digest, p)" by (cases e)
  from Cons.prems e have d: "distinct (map snd hashed)" and n: "p \<notin> set (map snd hashed)"
    and pm: "p \<notin> set (concat (map snd m))"
    and dis: "set (map snd hashed) \<inter> set (concat (map snd m)) = {}"
    by auto
  have "distinct (concat (map snd (add digest p m)))"
    using Cons.prems(2) pm by (rule distinct_paths_add)
  moreover have "set (map snd hashed) \<inter> set (concat (map snd (add digest p m))) = {}"
    using n dis by (simp only: paths_add) auto
  ultimately have "distinct (concat (map snd (addAll hashed (add digest p m))))"
    using d by (intro Cons.IH)
  then show ?case by (simp add: e)
qed

lemma distinct_paths_groups:
  "distinct (concat (map snd m)) \<Longrightarrow> distinct (concat (map snd (groups m)))"
proof (induction m)
  case Nil
  show ?case by simp
next
  case (Cons e m)
  obtain k paths where e: "e = (k, paths)" by (cases e)
  have "set (concat (map snd (groups m))) \<subseteq> set (concat (map snd m))"
    by (auto simp add: groups_filter)
  with Cons show ?case by (auto simp add: e)
qed

lemma finalized_store_paths_distinct:
  "distinct (map snd hashed) \<Longrightarrow> distinct (concat (map snd (groups (addAll hashed []))))"
  by (rule distinct_paths_groups) (simp add: distinct_paths_addAll)

text \<open>
  Claim C5. In a store built from the empty store by any sequence of \<^verbatim>\<open>add\<close>, every group
  of the externally visible \<^verbatim>\<open>duplicateGroups\<close> has at least two paths; every entry of the
  store has a non-empty path list; a digest associated with exactly one file does not
  appear in \<^verbatim>\<open>duplicateGroups\<close>; and a group is reported exactly for the digests shared by
  two files or more, with the paths of these files in the order of their arrival.
\<close>

theorem groups_have_two_paths:
  "(\<forall>e \<in> set (groups (addAll hashed [])). 2 \<le> length (snd e)) \<and>
   (\<forall>e \<in> set (addAll hashed []). snd e \<noteq> []) \<and>
   (\<forall>digest p. (digest, [p]) \<in> set (addAll hashed []) \<longrightarrow>
      digest \<notin> fst ` set (groups (addAll hashed []))) \<and>
   (\<forall>digest paths. (digest, paths) \<in> set (groups (addAll hashed [])) \<longleftrightarrow>
      paths = paths_of digest hashed \<and> 2 \<le> length paths)"
proof -
  have a: "\<forall>e \<in> set (groups (addAll hashed [])). 2 \<le> length (snd e)"
    by (simp add: groups_filter)
  have b: "\<forall>e \<in> set (addAll hashed []). snd e \<noteq> []"
    by (rule nonempty_addAll) simp
  have d: "\<forall>digest paths. (digest, paths) \<in> set (groups (addAll hashed [])) \<longleftrightarrow>
      paths = paths_of digest hashed \<and> 2 \<le> length paths"
    by (auto simp add: groups_filter store_entries)
  have c: "\<forall>digest p. (digest, [p]) \<in> set (addAll hashed []) \<longrightarrow>
      digest \<notin> fst ` set (groups (addAll hashed []))"
  proof (intro allI impI notI)
    fix digest p
    assume s: "(digest, [p]) \<in> set (addAll hashed [])"
      and g: "digest \<in> fst ` set (groups (addAll hashed []))"
    from g obtain paths where "(digest, paths) \<in> set (groups (addAll hashed []))" by auto
    with d have "paths = paths_of digest hashed" and two: "2 \<le> length paths" by auto
    moreover from s have "[p] = paths_of digest hashed" by (simp add: store_entries)
    ultimately have "paths = [p]" by simp
    with two show False by simp
  qed
  from a b c d show ?thesis by blast
qed

text \<open>Three files sharing a digest and a fourth file with a digest of its own.\<close>

theorem groups_have_two_paths_witness:
  "addAll hashed_files [] =
     [(txt_digest, [''/a/1.txt'', ''/b/1.txt'', ''/c/1.txt'']), (jpg_digest, [''/a/x.jpg''])] \<and>
   groups (addAll hashed_files []) =
     [(txt_digest, [''/a/1.txt'', ''/b/1.txt'', ''/c/1.txt''])] \<and>
   jpg_digest \<notin> fst ` set (groups (addAll hashed_files []))"
proof -
  have ne: "txt_digest \<noteq> jpg_digest" by (simp add: txt_digest_def jpg_digest_def)
  then have s: "addAll hashed_files [] =
     [(txt_digest, [''/a/1.txt'', ''/b/1.txt'', ''/c/1.txt'']), (jpg_digest, [''/a/x.jpg''])]"
    by (auto simp add: hashed_files_def)
  then have g: "groups (addAll hashed_files []) =
     [(txt_digest, [''/a/1.txt'', ''/b/1.txt'', ''/c/1.txt''])]"
    by simp
  from s have "(jpg_digest, [''/a/x.jpg'']) \<in> set (addAll hashed_files [])" by simp
  with groups_have_two_paths [of hashed_files]
  have "jpg_digest \<notin> fst ` set (groups (addAll hashed_files []))" by blast
  with s g show ?thesis by simp
qed

lemma aggregate_sums:
  "aggregate m (c, s) =
     (c + (\<Sum>(digest, paths) \<leftarrow> m. int (length paths) - 1),
      s + (\<Sum>(digest, paths) \<leftarrow> m. FileSize digest * (int (length paths) - 1)))"
proof (induction m arbitrary: c s)
  case Nil
  show ?case by simp
next
  case (Cons e m)
  obtain digest paths where e: "e = (digest, paths)" by (cases e)
  show ?case by (simp add: e Cons.IH Let_def algebra_simps)
qed

text \<open>
  Claim C4. For every store, \<^verbatim>\<open>totalDuplicateCount\<close> is the sum over the reported groups
  of the number of paths minus one, and \<^verbatim>\<open>savingsBytes\<close> is the sum over the reported groups
  of the digest's size times the number of paths minus one.
\<close>

theorem statistics_are_sums:
  "totalDuplicateCount m = (\<Sum>(digest, paths) \<leftarrow> groups m. int (length paths) - 1) \<and>
   savingsBytes m =
     (\<Sum>(digest, paths) \<leftarrow> groups m. FileSize digest * (int (length paths) - 1))"
  by (simp add: totalDuplicateCount_def savingsBytes_def aggregate_sums)

text \<open>The scenario of the spec: three files of identical 10-byte content give one group,
  2 duplicates and 20 bytes of savings.\<close>

theorem statistics_are_sums_witness:
  "groups (addAll hashed_files []) =
     [(txt_digest, [''/a/1.txt'', ''/b/1.txt'', ''/c/1.txt''])] \<and>
   FileSize txt_digest = 10 \<and>
   totalDuplicateCount (addAll hashed_files []) = 2 \<and>
   savingsBytes (addAll hashed_files []) = 20"
proof -
  have ne: "txt_digest \<noteq> jpg_digest" by (simp add: txt_digest_def jpg_digest_def)
  then have g: "groups (addAll hashed_files []) =
     [(txt_digest, [''/a/1.txt'', ''/b/1.txt'', ''/c/1.txt''])]"
    by (auto simp add: hashed_files_def)
  have f: "FileSize txt_digest = 10" by (simp add: txt_digest_def)
  from statistics_are_sums [of "addAll hashed_files []"] g f show ?thesis by simp
qed

end
